theory Spec2Isabelle
  imports Main "HOL-Library.Multiset"
begin

section \<open>Python strings and the library the program calls\<close>

text \<open>
  A Python \<open>str\<close> is a sequence of Unicode code points and \<open>len\<close> counts code points,
  so a string is a list of naturals (each below \<open>0x110000\<close>). \<open>u\<close> turns an ASCII
  literal into such a string.
\<close>

type_synonym cp = nat
type_synonym ustr = "cp list"
type_synonym byte = nat

definition u :: "string \<Rightarrow> ustr" where
  "u s = map of_char s"

datatype error = IndexError | UnicodeEncodeError | ValueError

text \<open>
  What the program takes from its environment: the Unicode tables behind \<open>str.isalpha\<close>,
  \<open>str.isdigit\<close>, \<open>str.isupper\<close>, \<open>str.isspace\<close>, \<open>str.lower\<close>, \<open>str.upper\<close> (both may
  return several code points for one) and \<open>unicodedata.normalize("NFKD", s)[0]\<close>;
  \<open>urllib.parse.urljoin\<close>, which raises \<open>ValueError\<close> on a reference it cannot parse;
  and the numbers the operating system hands to \<open>random.SystemRandom\<close>, as an endless
  sequence. The general theorems hold for every environment.
\<close>

record env =
  isalpha :: "cp \<Rightarrow> bool"
  isdigit :: "cp \<Rightarrow> bool"
  isupper :: "cp \<Rightarrow> bool"
  isspace :: "cp \<Rightarrow> bool"
  lower :: "cp \<Rightarrow> ustr"
  upper :: "cp \<Rightarrow> ustr"
  nfkd_head :: "ustr \<Rightarrow> cp"
  urljoin :: "ustr \<Rightarrow> ustr \<Rightarrow> error + ustr"
  urandom :: "nat \<Rightarrow> nat"

text \<open>\<open>s.upper()\<close> on a string maps every code point (upper-casing has no context rule).\<close>

definition upper_str :: "env \<Rightarrow> ustr \<Rightarrow> ustr" where
  "upper_str E s = concat (map (upper E) s)"

text \<open>\<open>s.startswith(p)\<close> and \<open>sub in s\<close>.\<close>

fun startswith :: "'a list \<Rightarrow> 'a list \<Rightarrow> bool" where
  "startswith s [] = True"
| "startswith [] (p # ps) = False"
| "startswith (x # xs) (p # ps) = (x = p \<and> startswith xs ps)"

fun contains :: "'a list \<Rightarrow> 'a list \<Rightarrow> bool" where
  "contains [] sub = (sub = [])"
| "contains (x # xs) sub = (startswith (x # xs) sub \<or> contains xs sub)"

text \<open>
  \<open>s.split(sep)\<close>: cut at every occurrence of \<open>sep\<close>, found from the left, occurrences
  not overlapping. \<open>cur\<close> is the piece being read. The program splits at the constants
  \<open>"<>"\<close> and \<open>","\<close> only (Python refuses an empty separator).
\<close>

function split_from :: "'a list \<Rightarrow> 'a list \<Rightarrow> 'a list \<Rightarrow> 'a list list" where
  "split_from sep cur s =
     (if s = [] then [cur]
      else if sep \<noteq> [] \<and> startswith s sep then cur # split_from sep [] (drop (length sep) s)
      else split_from sep (cur @ [hd s]) (tl s))"
  by pat_completeness auto
termination
  by (relation "measure (\<lambda>(sep, cur, s). length s)") auto

declare split_from.simps [simp del]

definition split :: "'a list \<Rightarrow> 'a list \<Rightarrow> 'a list list" where
  "split s sep = split_from sep [] s"

text \<open>\<open>sep.join(parts)\<close>.\<close>

fun join :: "'a list \<Rightarrow> 'a list list \<Rightarrow> 'a list" where
  "join sep [] = []"
| "join sep [p] = p"
| "join sep (p # q # ps) = p @ sep @ join sep (q # ps)"

text \<open>\<open>s.strip()\<close>: white space off both ends.\<close>

definition strip :: "env \<Rightarrow> ustr \<Rightarrow> ustr" where
  "strip E s = rev (dropWhile (isspace E) (rev (dropWhile (isspace E) s)))"

text \<open>\<open>xs.pop(0)\<close>: the first element and the rest; \<open>IndexError\<close> on an empty list.\<close>

definition pop0 :: "'a list \<Rightarrow> error + ('a \<times> 'a list)" where
  "pop0 xs = (case xs of [] \<Rightarrow> Inl IndexError | x # rest \<Rightarrow> Inr (x, rest))"

text \<open>
  \<open>random.shuffle\<close> (Fisher--Yates): for \<open>i\<close> from \<open>len(x) - 1\<close> down to \<open>1\<close>, draw
  \<open>j\<close> below \<open>i + 1\<close> and exchange \<open>x[i]\<close> and \<open>x[j]\<close>. The draw is the next number of
  the environment's sequence, reduced below \<open>i + 1\<close>; \<open>p\<close> counts the numbers drawn so
  far.
\<close>

fun shuffle_from :: "env \<Rightarrow> nat \<Rightarrow> nat \<Rightarrow> 'a list \<Rightarrow> 'a list \<times> nat" where
  "shuffle_from E 0 p xs = (xs, p)"
| "shuffle_from E (Suc k) p xs =
     (let i = Suc k; j = urandom E p mod (i + 1)
      in shuffle_from E k (Suc p) (xs[i := xs ! j, j := xs ! i]))"

definition shuffle :: "env \<Rightarrow> nat \<Rightarrow> 'a list \<Rightarrow> 'a list \<times> nat" where
  "shuffle E p xs = shuffle_from E (length xs - 1) p xs"

section \<open>The text scrambler (class Scrambler)\<close>

record scrambler =
  buf :: "cp list"
  alpha :: "ustr list"
  cons :: "ustr list"
  vowels :: "ustr list"
  digits :: "cp list"
  preserve_letter_distribution :: bool

definition CONSONANTS :: ustr where
  "CONSONANTS = u ''bcdfghjklmnpqrstvwxz''"

definition VOWELS :: ustr where
  "VOWELS = u ''aeiouy''"

definition Scrambler :: "bool \<Rightarrow> scrambler" where
  "Scrambler preserve =
     \<lparr>buf = [], alpha = [], cons = [], vowels = [], digits = [],
      preserve_letter_distribution = preserve\<rparr>"

definition clear :: "scrambler \<Rightarrow> scrambler" where
  "clear s = s\<lparr>buf := [], alpha := [], cons := [], vowels := [], digits := []\<rparr>"

text \<open>One round of the loop of \<open>feed\<close>, for the character \<open>c\<close>.\<close>

definition feed_char :: "env \<Rightarrow> scrambler \<Rightarrow> cp \<Rightarrow> scrambler" where
  "feed_char E s0 c =
     (let s = s0\<lparr>buf := buf s0 @ [c]\<rparr> in
      if isalpha E c then
        (let c' = lower E c in
         if preserve_letter_distribution s then
           (let n = nfkd_head E c' in
            if contains CONSONANTS [n] then s\<lparr>cons := cons s @ [c']\<rparr>
            else if contains VOWELS [n] then s\<lparr>vowels := vowels s @ [c']\<rparr>
            else s\<lparr>alpha := alpha s @ [c']\<rparr>)
         else s\<lparr>alpha := alpha s @ [c']\<rparr>)
      else if isdigit E c then s\<lparr>digits := digits s @ [c]\<rparr>
      else s)"

definition feed :: "env \<Rightarrow> scrambler \<Rightarrow> ustr \<Rightarrow> scrambler" where
  "feed E s text = foldl (feed_char E) s text"

text \<open>
  \<open>_pop_letter\<close>: the class of \<open>c\<close> picks the buffer; an \<open>IndexError\<close> of \<open>pop(0)\<close> is
  caught and the empty string returned.
\<close>

definition pop_letter :: "env \<Rightarrow> scrambler \<Rightarrow> cp \<Rightarrow> ustr \<times> scrambler" where
  "pop_letter E s c =
     (if preserve_letter_distribution s then
        (let n = nfkd_head E [c] in
         if contains CONSONANTS (lower E n) then
           (case pop0 (cons s) of Inl e \<Rightarrow> ([], s) | Inr (x, rest) \<Rightarrow> (x, s\<lparr>cons := rest\<rparr>))
         else if contains VOWELS (lower E n) then
           (case pop0 (vowels s) of Inl e \<Rightarrow> ([], s) | Inr (x, rest) \<Rightarrow> (x, s\<lparr>vowels := rest\<rparr>))
         else
           (case pop0 (alpha s) of Inl e \<Rightarrow> ([], s) | Inr (x, rest) \<Rightarrow> (x, s\<lparr>alpha := rest\<rparr>)))
      else
        (case pop0 (alpha s) of Inl e \<Rightarrow> ([], s) | Inr (x, rest) \<Rightarrow> (x, s\<lparr>alpha := rest\<rparr>)))"

text \<open>
  The loop of \<open>flush\<close> over the buffer: the pieces appended to \<open>text\<close>, in order, and the
  scrambler after the pops. \<open>self._digits.pop(0)\<close> stands outside any \<open>try\<close>.
\<close>

fun flush_loop :: "env \<Rightarrow> scrambler \<Rightarrow> cp list \<Rightarrow> error + (ustr list \<times> scrambler)" where
  "flush_loop E s [] = Inr ([], s)"
| "flush_loop E s (c # cs) =
     (if isalpha E c then
        (case pop_letter E s c of (l, s') \<Rightarrow>
           (case flush_loop E s' cs of
              Inl e \<Rightarrow> Inl e
            | Inr (text, s'') \<Rightarrow> Inr ((if isupper E c then upper_str E l else l) # text, s'')))
      else if isdigit E c then
        (case pop0 (digits s) of
           Inl e \<Rightarrow> Inl e
         | Inr (d, rest) \<Rightarrow>
             (case flush_loop E (s\<lparr>digits := rest\<rparr>) cs of
                Inl e \<Rightarrow> Inl e
              | Inr (text, s'') \<Rightarrow> Inr ([d] # text, s'')))
      else
        (case flush_loop E s cs of
           Inl e \<Rightarrow> Inl e
         | Inr (text, s'') \<Rightarrow> Inr ([c] # text, s'')))"

definition flush :: "env \<Rightarrow> scrambler \<Rightarrow> error + (ustr \<times> scrambler)" where
  "flush E s =
     (case flush_loop E s (buf s) of
        Inl e \<Rightarrow> Inl e
      | Inr (text, s') \<Rightarrow> Inr (concat text, clear s'))"

text \<open>
  \<open>scramble\<close>: shuffle the buffers, then \<open>flush\<close>. The result carries the count of
  random numbers drawn.
\<close>

definition scramble :: "env \<Rightarrow> nat \<Rightarrow> scrambler \<Rightarrow> error + (ustr \<times> scrambler \<times> nat)" where
  "scramble E p s =
     (let (a, p1) = shuffle E p (alpha s);
          (c, p2) = (if preserve_letter_distribution s then shuffle E p1 (cons s)
                     else (cons s, p1));
          (v, p3) = (if preserve_letter_distribution s then shuffle E p2 (vowels s)
                     else (vowels s, p2));
          (d, p4) = shuffle E p3 (digits s)
      in case flush E (s\<lparr>alpha := a, cons := c, vowels := v, digits := d\<rparr>) of
           Inl e \<Rightarrow> Inl e
         | Inr (text, s') \<Rightarrow> Inr (text, s', p4))"

text \<open>A fresh scrambler fed \<open>text\<close> and scrambled, as every caller does.\<close>

definition scramble_text :: "env \<Rightarrow> nat \<Rightarrow> ustr \<Rightarrow> error + (ustr \<times> nat)" where
  "scramble_text E p text =
     (case scramble E p (feed E (Scrambler True) text) of
        Inl e \<Rightarrow> Inl e
      | Inr (out, s', p') \<Rightarrow> Inr (out, p'))"

section \<open>Library functions of the HTML scrambler\<close>

text \<open>
  \<open>html.escape(s, True)\<close>: five replacements, one after the other, \<open>&\<close> first.
\<close>

definition replace1 :: "cp \<Rightarrow> ustr \<Rightarrow> ustr \<Rightarrow> ustr" where
  "replace1 c r s = concat (map (\<lambda>x. if x = c then r else [x]) s)"

definition escape :: "ustr \<Rightarrow> ustr" where
  "escape s =
     replace1 39 (u ''&#x27;'') (replace1 34 (u ''&quot;'')
       (replace1 62 (u ''&gt;'') (replace1 60 (u ''&lt;'') (replace1 38 (u ''&amp;'') s))))"

text \<open>
  \<open>urllib.parse.quote(s)\<close> with its default \<open>safe="/"\<close>: the string is encoded as UTF-8
  (strictly: a surrogate code point raises \<open>UnicodeEncodeError\<close>), and every byte that
  is not an ASCII letter, a digit, one of \<open>_.-~\<close> or \<open>/\<close> becomes \<open>%XX\<close>.
\<close>

definition utf8 :: "cp \<Rightarrow> error + byte list" where
  "utf8 c =
     (if c < 0x80 then Inr [c]
      else if c < 0x800 then Inr [0xC0 + c div 64, 0x80 + c mod 64]
      else if 0xD800 \<le> c \<and> c \<le> 0xDFFF then Inl UnicodeEncodeError
      else if c < 0x10000 then Inr [0xE0 + c div 4096, 0x80 + (c div 64) mod 64, 0x80 + c mod 64]
      else if c < 0x110000 then
        Inr [0xF0 + c div 262144, 0x80 + (c div 4096) mod 64, 0x80 + (c div 64) mod 64,
             0x80 + c mod 64]
      else Inl UnicodeEncodeError)"

definition always_safe :: "byte \<Rightarrow> bool" where
  "always_safe b \<longleftrightarrow>
     (65 \<le> b \<and> b \<le> 90) \<or> (97 \<le> b \<and> b \<le> 122) \<or> (48 \<le> b \<and> b \<le> 57) \<or>
     b = 95 \<or> b = 46 \<or> b = 45 \<or> b = 126"

definition hexdigit :: "nat \<Rightarrow> cp" where
  "hexdigit k = (if k < 10 then 48 + k else 55 + k)"

definition quote_byte :: "byte \<Rightarrow> ustr" where
  "quote_byte b =
     (if always_safe b \<or> b = 47 then [b] else [37, hexdigit (b div 16), hexdigit (b mod 16)])"

fun quote :: "ustr \<Rightarrow> error + ustr" where
  "quote [] = Inr []"
| "quote (c # cs) =
     (case utf8 c of
        Inl e \<Rightarrow> Inl e
      | Inr bs \<Rightarrow>
          (case quote cs of
             Inl e \<Rightarrow> Inl e
           | Inr r \<Rightarrow> Inr (concat (map quote_byte bs) @ r)))"

text \<open>\<open>str(n)\<close> for a natural number, in decimal.\<close>

function decimal :: "nat \<Rightarrow> ustr" where
  "decimal n = (if n < 10 then [48 + n] else decimal (n div 10) @ [48 + n mod 10])"
  by pat_completeness auto
termination
  by (relation "measure (\<lambda>n. n)") auto

declare decimal.simps [simp del]

text \<open>
  A character encoding, as far as the program uses one: which bytes a code point
  encodes to (\<open>None\<close> when the encoding cannot represent it), and \<open>bytes.decode(enc,
  "ignore")\<close>. \<open>s.encode(enc, "xmlcharrefreplace")\<close> encodes code point by code point;
  for one the encoding cannot represent it encodes the reference \<open>&#N;\<close> instead, and
  raises when the encoding cannot represent the reference either.
\<close>

record codec =
  encode_char :: "cp \<Rightarrow> byte list option"
  decode_ignore :: "byte list \<Rightarrow> ustr"

definition charref :: "cp \<Rightarrow> ustr" where
  "charref c = u ''&#'' @ decimal c @ u '';''"

fun encode_strict :: "codec \<Rightarrow> ustr \<Rightarrow> error + byte list" where
  "encode_strict C [] = Inr []"
| "encode_strict C (c # cs) =
     (case encode_char C c of
        None \<Rightarrow> Inl UnicodeEncodeError
      | Some bs \<Rightarrow>
          (case encode_strict C cs of Inl e \<Rightarrow> Inl e | Inr r \<Rightarrow> Inr (bs @ r)))"

fun encode_xmlcharrefreplace :: "codec \<Rightarrow> ustr \<Rightarrow> error + byte list" where
  "encode_xmlcharrefreplace C [] = Inr []"
| "encode_xmlcharrefreplace C (c # cs) =
     (case (case encode_char C c of None \<Rightarrow> encode_strict C (charref c) | Some bs \<Rightarrow> Inr bs) of
        Inl e \<Rightarrow> Inl e
      | Inr bs \<Rightarrow>
          (case encode_xmlcharrefreplace C cs of Inl e \<Rightarrow> Inl e | Inr r \<Rightarrow> Inr (bs @ r)))"

section \<open>The HTML scrambler (class HTMLScrambler)\<close>

text \<open>
  \<open>hbuf\<close> is the attribute \<open>_buf\<close> of the class (the name \<open>buf\<close> is the text
  scrambler's). The encodings are \<open>None\<close> or a codec.
\<close>

record html_scrambler =
  base_url :: ustr
  is_honeypot :: bool
  source_encoding :: "codec option"
  target_encoding :: "codec option"
  suppress_scripts :: bool
  hbuf :: "ustr list"
  html :: "ustr list"
  is_scrambling :: bool
  is_script :: bool
  is_xhtml :: bool

definition DONT_SCRAMBLE :: "ustr list" where
  "DONT_SCRAMBLE = [u ''script'', u ''style'']"

definition VOID_ELEMENTS :: "ustr list" where
  "VOID_ELEMENTS =
     [u ''area'', u ''base'', u ''br'', u ''col'', u ''embed'', u ''hr'', u ''img'', u ''input'',
      u ''link'', u ''meta'', u ''param'', u ''source'', u ''track'', u ''wbr'',
      u ''command'', u ''keygen'', u ''menuitem'']"

definition HTMLScrambler ::
  "ustr \<Rightarrow> bool \<Rightarrow> codec option \<Rightarrow> codec option \<Rightarrow> bool \<Rightarrow> html_scrambler" where
  "HTMLScrambler base honeypot src tgt suppress =
     \<lparr>base_url = base, is_honeypot = honeypot, source_encoding = src, target_encoding = tgt,
      suppress_scripts = (suppress \<or> honeypot), hbuf = [], html = [],
      is_scrambling = True, is_script = False, is_xhtml = False\<rparr>"

text \<open>
  One entry of \<open>srcset\<close>, already stripped, and the loop over the entries; a
  \<open>ValueError\<close> of \<open>urljoin\<close> ends the loop.
\<close>

definition srcset_item :: "env \<Rightarrow> html_scrambler \<Rightarrow> ustr \<Rightarrow> error + ustr" where
  "srcset_item E h item =
     (if contains item [32] then
        (let src = takeWhile (\<lambda>c. c \<noteq> 32) item;
             size = drop 1 (dropWhile (\<lambda>c. c \<noteq> 32) item)
         in case urljoin E (base_url h) src of
              Inl e \<Rightarrow> Inl e
            | Inr joined \<Rightarrow> Inr (joined @ [32] @ size))
      else urljoin E (base_url h) item)"

fun srcset_items :: "env \<Rightarrow> html_scrambler \<Rightarrow> ustr list \<Rightarrow> error + ustr list" where
  "srcset_items E h [] = Inr []"
| "srcset_items E h (item # items) =
     (case srcset_item E h item of
        Inl e \<Rightarrow> Inl e
      | Inr x \<Rightarrow>
          (case srcset_items E h items of
             Inl e \<Rightarrow> Inl e
           | Inr srcset \<Rightarrow> Inr (x # srcset)))"

text \<open>
  \<open>_process_attr_value\<close>; \<open>p\<close> counts the random numbers drawn so far. The exceptions
  of \<open>urljoin\<close> and \<open>quote\<close> are not caught.
\<close>

definition process_attr_value ::
  "env \<Rightarrow> html_scrambler \<Rightarrow> nat \<Rightarrow> ustr \<Rightarrow> ustr \<Rightarrow> ustr \<Rightarrow> error + (ustr \<times> nat)" where
  "process_attr_value E h p tag attr val =
     (if (tag = u ''a'' \<and> attr = u ''href'')
         \<or> (tag \<in> set [u ''frame'', u ''iframe''] \<and> attr = u ''src'') then
        (case urljoin E (base_url h) val of
           Inl e \<Rightarrow> Inl e
         | Inr joined \<Rightarrow>
             (case quote joined of
                Inl e \<Rightarrow> Inl e
              | Inr target \<Rightarrow>
                  Inr (escape (if is_honeypot h then u ''?honeypot=1&url='' @ target
                               else u ''?url='' @ target), p)))
      else if attr \<in> set [u ''action'', u ''href'', u ''src''] then
        (case urljoin E (base_url h) val of
           Inl e \<Rightarrow> Inl e
         | Inr joined \<Rightarrow> Inr (escape joined, p))
      else if attr = u ''srcset'' then
        (case srcset_items E h (map (strip E) (split val (u '',''))) of
           Inl e \<Rightarrow> Inl e
         | Inr srcset \<Rightarrow> Inr (escape (join (u '', '') srcset), p))
      else if attr \<in> set [u ''alt'', u ''placeholder'', u ''title'', u ''value''] then
        (case scramble E p (feed E (Scrambler True) val) of
           Inl e \<Rightarrow> Inl e
         | Inr (v, s', p') \<Rightarrow> Inr (escape v, p'))
      else Inr (escape val, p))"

text \<open>
  \<open>_build_starttag\<close>: the attribute loop, then the \<open>disabled\<close> of an \<open>input\<close> and the
  closing. An attribute without a value has the value \<open>None\<close>.
\<close>

fun build_attrs ::
  "env \<Rightarrow> html_scrambler \<Rightarrow> nat \<Rightarrow> ustr \<Rightarrow> (ustr \<times> ustr option) list \<Rightarrow> error + (ustr list \<times> nat)"
  where
  "build_attrs E h p tag [] = Inr ([], p)"
| "build_attrs E h p tag ((attr, val) # rest) =
     (case val of
        Some v \<Rightarrow>
          (case process_attr_value E h p tag attr v of
             Inl e \<Rightarrow> Inl e
           | Inr (v', p') \<Rightarrow>
               (case build_attrs E h p' tag rest of
                  Inl e \<Rightarrow> Inl e
                | Inr (tag_data, p'') \<Rightarrow>
                    Inr ([u '' '', attr, u ''=\"'', v', u ''\"''] @ tag_data, p'')))
      | None \<Rightarrow>
          (case build_attrs E h p tag rest of
             Inl e \<Rightarrow> Inl e
           | Inr (tag_data, p'') \<Rightarrow>
               Inr ([u '' '', attr]
                    @ (if is_xhtml h then [u ''=\"'', attr, u ''\"''] else [])
                    @ tag_data, p'')))"

definition build_starttag ::
  "env \<Rightarrow> html_scrambler \<Rightarrow> nat \<Rightarrow> ustr \<Rightarrow> (ustr \<times> ustr option) list \<Rightarrow> bool \<Rightarrow> error + (ustr \<times> nat)"
  where
  "build_starttag E h p tag attrs is_empty =
     (case build_attrs E h p tag attrs of
        Inl e \<Rightarrow> Inl e
      | Inr (tag_data, p') \<Rightarrow>
          Inr (concat
                ([u ''<'', tag] @ tag_data
                 @ (if tag = u ''input''
                    then [u '' disabled''] @ (if is_xhtml h then [u ''=\"disabled\"''] else [])
                    else [])
                 @ [if is_xhtml h \<and> (is_empty \<or> tag \<in> set VOID_ELEMENTS) then u '' />''
                    else u ''>'']), p'))"

text \<open>The two lines most handlers end with: the markup and its placeholder.\<close>

definition emit :: "html_scrambler \<Rightarrow> ustr \<Rightarrow> html_scrambler" where
  "emit h m = h\<lparr>html := html h @ [m], hbuf := hbuf h @ [u ''<>'']\<rparr>"

definition handle_starttag ::
  "env \<Rightarrow> html_scrambler \<Rightarrow> nat \<Rightarrow> ustr \<Rightarrow> (ustr \<times> ustr option) list \<Rightarrow> error + (html_scrambler \<times> nat)"
  where
  "handle_starttag E h0 p tag attrs =
     (let h = (if tag = u ''script'' then h0\<lparr>is_script := True\<rparr>
               else if tag \<in> set DONT_SCRAMBLE then h0\<lparr>is_scrambling := False\<rparr>
               else h0)
      in if tag = u ''script'' \<and> suppress_scripts h then Inr (h, p)
         else (case build_starttag E h p tag attrs False of
                 Inl e \<Rightarrow> Inl e
               | Inr (m, p') \<Rightarrow> Inr (emit h m, p')))"

definition handle_startendtag ::
  "env \<Rightarrow> html_scrambler \<Rightarrow> nat \<Rightarrow> ustr \<Rightarrow> (ustr \<times> ustr option) list \<Rightarrow> error + (html_scrambler \<times> nat)"
  where
  "handle_startendtag E h p tag attrs =
     (if tag = u ''script'' \<and> suppress_scripts h then Inr (h, p)
      else (case build_starttag E h p tag attrs True of
              Inl e \<Rightarrow> Inl e
            | Inr (m, p') \<Rightarrow> Inr (emit h m, p')))"

definition handle_endtag :: "html_scrambler \<Rightarrow> ustr \<Rightarrow> html_scrambler" where
  "handle_endtag h0 tag =
     (let h = (if tag = u ''script'' then h0\<lparr>is_script := False\<rparr>
               else if tag \<in> set DONT_SCRAMBLE then h0\<lparr>is_scrambling := True\<rparr>
               else h0)
      in if tag = u ''script'' \<and> suppress_scripts h then h
         else emit h (u ''</'' @ tag @ u ''>''))"

definition handle_data :: "html_scrambler \<Rightarrow> ustr \<Rightarrow> html_scrambler" where
  "handle_data h data =
     (if is_script h \<and> suppress_scripts h then emit h (u ''<!-- script removed -->'')
      else if is_scrambling h then h\<lparr>hbuf := hbuf h @ [data]\<rparr>
      else emit h data)"

definition handle_entityref :: "html_scrambler \<Rightarrow> ustr \<Rightarrow> html_scrambler" where
  "handle_entityref h name = emit h (u ''&'' @ name @ u '';'')"

definition handle_charref :: "html_scrambler \<Rightarrow> ustr \<Rightarrow> html_scrambler" where
  "handle_charref h name = emit h (u ''&#'' @ name @ u '';'')"

definition handle_comment :: "html_scrambler \<Rightarrow> ustr \<Rightarrow> html_scrambler" where
  "handle_comment h data = emit h (u ''<!--'' @ data @ u ''-->'')"

definition handle_decl :: "html_scrambler \<Rightarrow> ustr \<Rightarrow> html_scrambler" where
  "handle_decl h decl =
     (let h' = emit h (u ''<!'' @ decl @ u ''>'')
      in if contains decl (u ''//DTD XHTML '') then h'\<lparr>is_xhtml := True\<rparr> else h')"

text \<open>
  \<open>feed\<close> is \<open>HTMLParser.feed\<close>: the library's tokenizer reads the document and calls
  the handlers in document order. A document is taken as the list of these calls.
  \<open>handle_pi\<close> and \<open>unknown_decl\<close> are not overridden and do nothing.
\<close>

datatype event =
    StartTag ustr "(ustr \<times> ustr option) list"
  | StartEndTag ustr "(ustr \<times> ustr option) list"
  | EndTag ustr
  | Data ustr
  | EntityRef ustr
  | CharRef ustr
  | Comment ustr
  | Decl ustr
  | Pi ustr
  | UnknownDecl ustr

fun handle :: "env \<Rightarrow> html_scrambler \<Rightarrow> nat \<Rightarrow> event \<Rightarrow> error + (html_scrambler \<times> nat)" where
  "handle E h p (StartTag tag attrs) = handle_starttag E h p tag attrs"
| "handle E h p (StartEndTag tag attrs) = handle_startendtag E h p tag attrs"
| "handle E h p (EndTag tag) = Inr (handle_endtag h tag, p)"
| "handle E h p (Data data) = Inr (handle_data h data, p)"
| "handle E h p (EntityRef name) = Inr (handle_entityref h name, p)"
| "handle E h p (CharRef name) = Inr (handle_charref h name, p)"
| "handle E h p (Comment data) = Inr (handle_comment h data, p)"
| "handle E h p (Decl decl) = Inr (handle_decl h decl, p)"
| "handle E h p (Pi data) = Inr (h, p)"
| "handle E h p (UnknownDecl data) = Inr (h, p)"

fun feed_events ::
  "env \<Rightarrow> html_scrambler \<Rightarrow> nat \<Rightarrow> event list \<Rightarrow> error + (html_scrambler \<times> nat)" where
  "feed_events E h p [] = Inr (h, p)"
| "feed_events E h p (ev # evs) =
     (case handle E h p ev of
        Inl e \<Rightarrow> Inl e
      | Inr (h', p') \<Rightarrow> feed_events E h' p' evs)"

text \<open>
  \<open>HTMLScrambler.scramble\<close>. \<open>recode\<close> is
  \<open>chunk.encode(target, "xmlcharrefreplace").decode(source, "ignore")\<close>; \<open>reassemble\<close> is
  the loop over the chunks, which pops the markup queue while it is not empty.
\<close>

definition recode :: "codec \<Rightarrow> codec \<Rightarrow> ustr \<Rightarrow> error + ustr" where
  "recode src tgt chunk =
     (case encode_xmlcharrefreplace tgt chunk of
        Inl e \<Rightarrow> Inl e
      | Inr bs \<Rightarrow> Inr (decode_ignore src bs))"

definition convert :: "html_scrambler \<Rightarrow> ustr \<Rightarrow> error + ustr" where
  "convert h chunk =
     (case (source_encoding h, target_encoding h) of
        (Some src, Some tgt) \<Rightarrow> recode src tgt chunk
      | _ \<Rightarrow> Inr chunk)"

fun reassemble :: "html_scrambler \<Rightarrow> ustr list \<Rightarrow> error + (ustr list \<times> html_scrambler)" where
  "reassemble h [] = Inr ([], h)"
| "reassemble h (chunk # chunks) =
     (case convert h chunk of
        Inl e \<Rightarrow> Inl e
      | Inr t \<Rightarrow>
          (case html h of
             [] \<Rightarrow>
               (case reassemble h chunks of
                  Inl e \<Rightarrow> Inl e
                | Inr (text, h') \<Rightarrow> Inr (t # text, h'))
           | m # ms \<Rightarrow>
               (case reassemble (h\<lparr>html := ms\<rparr>) chunks of
                  Inl e \<Rightarrow> Inl e
                | Inr (text, h') \<Rightarrow> Inr (t # m # text, h'))))"

definition HTMLScrambler_scramble ::
  "env \<Rightarrow> html_scrambler \<Rightarrow> nat \<Rightarrow> error + (ustr \<times> html_scrambler \<times> nat)" where
  "HTMLScrambler_scramble E h p =
     (case scramble E p (feed E (Scrambler True) (concat (hbuf h))) of
        Inl e \<Rightarrow> Inl e
      | Inr (s, sc, p') \<Rightarrow>
          (case reassemble h (split s (u ''<>'')) of
             Inl e \<Rightarrow> Inl e
           | Inr (text, h') \<Rightarrow> Inr (concat text, h', p')))"

text \<open>
  The core pipeline: a fresh HTML scrambler is fed the document and asked for the
  scrambled page.
\<close>

definition pipeline ::
  "env \<Rightarrow> ustr \<Rightarrow> bool \<Rightarrow> codec option \<Rightarrow> codec option \<Rightarrow> bool \<Rightarrow> event list \<Rightarrow> error + ustr"
  where
  "pipeline E base honeypot src tgt suppress doc =
     (case feed_events E (HTMLScrambler base honeypot src tgt suppress) 0 doc of
        Inl e \<Rightarrow> Inl e
      | Inr (h, p) \<Rightarrow>
          (case HTMLScrambler_scramble E h p of
             Inl e \<Rightarrow> Inl e
           | Inr (page, h', p') \<Rightarrow> Inr page))"

section \<open>A sample of the Python library\<close>

text \<open>
  The closed evaluations below run the program in this environment. It gives the values
  Python 3 has at the ASCII code points and at U+00C6 (capital ligature AE), U+00DF
  (sharp s), U+00E6 (small ligature ae) and U+2102 (double-struck capital C, an
  upper-case letter with no lower-case form whose NFKD form is \<open>C\<close>); every text
  evaluated below stays within these code points. \<open>urljoin\<close> is given for a base
  \<open>scheme://host/...\<close> and a reference that is an absolute path, where it returns. The random numbers
  \<open>r\<close> are chosen per run.
\<close>

definition py_isalpha :: "cp \<Rightarrow> bool" where
  "py_isalpha c \<longleftrightarrow>
     (65 \<le> c \<and> c \<le> 90) \<or> (97 \<le> c \<and> c \<le> 122) \<or> c = 0xC6 \<or> c = 0xDF \<or> c = 0xE6 \<or> c = 0x2102"

definition py_isdigit :: "cp \<Rightarrow> bool" where
  "py_isdigit c \<longleftrightarrow> 48 \<le> c \<and> c \<le> 57"

definition py_isupper :: "cp \<Rightarrow> bool" where
  "py_isupper c \<longleftrightarrow> (65 \<le> c \<and> c \<le> 90) \<or> c = 0xC6 \<or> c = 0x2102"

definition py_isspace :: "cp \<Rightarrow> bool" where
  "py_isspace c \<longleftrightarrow> (9 \<le> c \<and> c \<le> 13) \<or> (28 \<le> c \<and> c \<le> 32)"

definition py_lower :: "cp \<Rightarrow> ustr" where
  "py_lower c = (if 65 \<le> c \<and> c \<le> 90 then [c + 32] else if c = 0xC6 then [0xE6] else [c])"

definition py_upper :: "cp \<Rightarrow> ustr" where
  "py_upper c =
     (if 97 \<le> c \<and> c \<le> 122 then [c - 32]
      else if c = 0xDF then [0x53, 0x53]
      else if c = 0xE6 then [0xC6]
      else [c])"

definition py_nfkd_head :: "ustr \<Rightarrow> cp" where
  "py_nfkd_head s = (case s of [] \<Rightarrow> 0 | c # rest \<Rightarrow> if c = 0x2102 then 0x43 else c)"

text \<open>The base up to its third \<open>/\<close> (scheme and host), then the absolute path.\<close>

fun scheme_host :: "nat \<Rightarrow> ustr \<Rightarrow> ustr" where
  "scheme_host n [] = []"
| "scheme_host n (c # cs) =
     (if c = 47 then (if n = 0 then [] else c # scheme_host (n - 1) cs)
      else c # scheme_host n cs)"

definition py_urljoin :: "ustr \<Rightarrow> ustr \<Rightarrow> error + ustr" where
  "py_urljoin base url =
     (if url = [] then Inr base
      else if startswith url [47] \<and> \<not> startswith url [47, 47]
      then Inr (scheme_host 2 base @ url)
      else Inr url)"

definition python :: "(nat \<Rightarrow> nat) \<Rightarrow> env" where
  "python r =
     \<lparr>isalpha = py_isalpha, isdigit = py_isdigit, isupper = py_isupper, isspace = py_isspace,
      lower = py_lower, upper = py_upper, nfkd_head = py_nfkd_head, urljoin = py_urljoin,
      urandom = r\<rparr>"





section \<open>Notions used in the statements\<close>

text \<open>
  The class \<open>feed\<close> files a letter under, and the class \<open>_pop_letter\<close> pops for it. A
  character is tame when, if it is a letter, the two agree, its lower-case form is one
  letter, and the upper-case form of that is one letter again; every ASCII character
  is. \<open>same_kind\<close> relates a character of the text to the character at its place in the
  scrambled text.
\<close>

datatype letter_class = Consonant | Vowel | OtherLetter

definition fed_class :: "env \<Rightarrow> cp \<Rightarrow> letter_class" where
  "fed_class E c =
     (let n = nfkd_head E (lower E c) in
      if contains CONSONANTS [n] then Consonant
      else if contains VOWELS [n] then Vowel
      else OtherLetter)"

definition popped_class :: "env \<Rightarrow> cp \<Rightarrow> letter_class" where
  "popped_class E c =
     (let n = nfkd_head E [c] in
      if contains CONSONANTS (lower E n) then Consonant
      else if contains VOWELS (lower E n) then Vowel
      else OtherLetter)"

definition good_letter :: "env \<Rightarrow> ustr \<Rightarrow> bool" where
  "good_letter E l \<longleftrightarrow>
     (case l of
        [x] \<Rightarrow> isalpha E x \<and> (case upper E x of [m] \<Rightarrow> isalpha E m | _ \<Rightarrow> False)
      | _ \<Rightarrow> False)"

definition tame :: "env \<Rightarrow> cp \<Rightarrow> bool" where
  "tame E c \<longleftrightarrow>
     (isalpha E c \<longrightarrow> fed_class E c = popped_class E c \<and> good_letter E (lower E c))"

definition same_kind :: "env \<Rightarrow> cp \<Rightarrow> cp \<Rightarrow> bool" where
  "same_kind E c x \<longleftrightarrow>
     (if isalpha E c then isalpha E x
      else if isdigit E c then \<not> isalpha E x \<and> isdigit E x
      else x = c)"

definition letters_of :: "env \<Rightarrow> letter_class \<Rightarrow> ustr \<Rightarrow> ustr list" where
  "letters_of E k t = map (lower E) (filter (\<lambda>c. isalpha E c \<and> fed_class E c = k) t)"

definition digits_of :: "env \<Rightarrow> ustr \<Rightarrow> cp list" where
  "digits_of E t = filter (\<lambda>c. \<not> isalpha E c \<and> isdigit E c) t"

text \<open>The state \<open>flush\<close> needs to replay \<open>cs\<close>: every buffer holds what \<open>cs\<close> will pop.\<close>

definition ready :: "env \<Rightarrow> scrambler \<Rightarrow> cp list \<Rightarrow> bool" where
  "ready E s cs \<longleftrightarrow>
     preserve_letter_distribution s
     \<and> length (cons s) = length (filter (\<lambda>c. isalpha E c \<and> popped_class E c = Consonant) cs)
     \<and> length (vowels s) = length (filter (\<lambda>c. isalpha E c \<and> popped_class E c = Vowel) cs)
     \<and> length (alpha s) = length (filter (\<lambda>c. isalpha E c \<and> popped_class E c = OtherLetter) cs)
     \<and> length (digits s) = length (digits_of E cs)
     \<and> (\<forall>l \<in> set (cons s) \<union> set (vowels s) \<union> set (alpha s). good_letter E l)
     \<and> (\<forall>d \<in> set (digits s). \<not> isalpha E d \<and> isdigit E d)"


text \<open>
  What the replay writes at a position, from the string popped there; the strings popped
  at the positions of one class, and at the digit positions; and the relation between
  the buffers before a replay and the strings it pops.
\<close>

definition recase :: "env \<Rightarrow> cp \<Rightarrow> ustr \<Rightarrow> ustr" where
  "recase E c l = (if isalpha E c \<and> isupper E c then upper_str E l else l)"

definition popped_at :: "env \<Rightarrow> letter_class \<Rightarrow> cp list \<Rightarrow> ustr list \<Rightarrow> ustr list" where
  "popped_at E k cs ls =
     map snd (filter (\<lambda>(c, l). isalpha E c \<and> popped_class E c = k) (zip cs ls))"

definition digits_at :: "env \<Rightarrow> cp list \<Rightarrow> ustr list \<Rightarrow> ustr list" where
  "digits_at E cs ls = map snd (filter (\<lambda>(c, l). \<not> isalpha E c \<and> isdigit E c) (zip cs ls))"

definition filled :: "env \<Rightarrow> scrambler \<Rightarrow> cp list \<Rightarrow> bool" where
  "filled E s cs \<longleftrightarrow>
     preserve_letter_distribution s
     \<and> length (cons s) = length (filter (\<lambda>c. isalpha E c \<and> popped_class E c = Consonant) cs)
     \<and> length (vowels s) = length (filter (\<lambda>c. isalpha E c \<and> popped_class E c = Vowel) cs)
     \<and> length (alpha s) = length (filter (\<lambda>c. isalpha E c \<and> popped_class E c = OtherLetter) cs)
     \<and> length (digits s) = length (digits_of E cs)"

definition replayed :: "env \<Rightarrow> scrambler \<Rightarrow> cp list \<Rightarrow> ustr list \<Rightarrow> bool" where
  "replayed E s cs ls \<longleftrightarrow>
     length ls = length cs
     \<and> popped_at E Consonant cs ls = cons s
     \<and> popped_at E Vowel cs ls = vowels s
     \<and> popped_at E OtherLetter cs ls = alpha s
     \<and> digits_at E cs ls = map (\<lambda>d. [d]) (digits s)
     \<and> list_all2 (\<lambda>c l. isalpha E c \<or> isdigit E c \<or> l = [c]) cs ls"


section \<open>Evaluation rules\<close>

lemmas py_defs = python_def py_isalpha_def py_isdigit_def py_isupper_def py_isspace_def
  py_lower_def py_upper_def py_nfkd_head_def py_urljoin_def

lemmas scrambler_defs = scramble_text_def scramble_def feed_def feed_char_def Scrambler_def
  CONSONANTS_def VOWELS_def u_def shuffle_def flush_def pop_letter_def pop0_def upper_str_def
  clear_def Let_def

lemmas html_defs = HTMLScrambler_def handle_starttag_def handle_startendtag_def
  handle_endtag_def handle_data_def handle_entityref_def handle_charref_def handle_comment_def
  handle_decl_def emit_def build_starttag_def process_attr_value_def DONT_SCRAMBLE_def
  VOID_ELEMENTS_def HTMLScrambler_scramble_def pipeline_def convert_def split_def
  escape_def replace1_def

lemmas quote_defs = quote_byte_def utf8_def always_safe_def hexdigit_def

section \<open>What the scrambler does to a tame text\<close>

lemma feed_char_fields:
  assumes "preserve_letter_distribution s"
  shows "feed_char E s c =
     s\<lparr>buf := buf s @ [c],
       alpha := alpha s @ letters_of E OtherLetter [c],
       cons := cons s @ letters_of E Consonant [c],
       vowels := vowels s @ letters_of E Vowel [c],
       digits := digits s @ digits_of E [c]\<rparr>"
  using assms by (simp add: feed_char_def letters_of_def digits_of_def fed_class_def Let_def)

lemma letters_of_append: "letters_of E k (a @ b) = letters_of E k a @ letters_of E k b"
  by (simp add: letters_of_def)

lemma digits_of_append: "digits_of E (a @ b) = digits_of E a @ digits_of E b"
  by (simp add: digits_of_def)

lemma feed_fields:
  "preserve_letter_distribution s \<Longrightarrow>
   feed E s t =
     s\<lparr>buf := buf s @ t,
       alpha := alpha s @ letters_of E OtherLetter t,
       cons := cons s @ letters_of E Consonant t,
       vowels := vowels s @ letters_of E Vowel t,
       digits := digits s @ digits_of E t\<rparr>"
proof (induction t arbitrary: s)
  case Nil
  then show ?case by (simp add: feed_def letters_of_def digits_of_def)
next
  case (Cons c t)
  have p: "preserve_letter_distribution (feed_char E s c)"
    using Cons.prems by (simp add: feed_char_fields)
  have "feed E s (c # t) = feed E (feed_char E s c) t"
    by (simp add: feed_def)
  also have "\<dots> = (feed_char E s c)\<lparr>buf := buf (feed_char E s c) @ t,
       alpha := alpha (feed_char E s c) @ letters_of E OtherLetter t,
       cons := cons (feed_char E s c) @ letters_of E Consonant t,
       vowels := vowels (feed_char E s c) @ letters_of E Vowel t,
       digits := digits (feed_char E s c) @ digits_of E t\<rparr>"
    by (rule Cons.IH [OF p])
  also have "\<dots> = s\<lparr>buf := buf s @ c # t,
       alpha := alpha s @ letters_of E OtherLetter (c # t),
       cons := cons s @ letters_of E Consonant (c # t),
       vowels := vowels s @ letters_of E Vowel (c # t),
       digits := digits s @ digits_of E (c # t)\<rparr>"
    using letters_of_append [of E _ "[c]" t] digits_of_append [of E "[c]" t]
    by (simp add: feed_char_fields [OF Cons.prems])
  finally show ?case .
qed

lemma feed_fresh:
  "feed E (Scrambler True) t =
     \<lparr>buf = t, alpha = letters_of E OtherLetter t, cons = letters_of E Consonant t,
      vowels = letters_of E Vowel t, digits = digits_of E t,
      preserve_letter_distribution = True\<rparr>"
  by (simp add: feed_fields Scrambler_def)

lemma shuffle_from_mset:
  "k < length xs \<Longrightarrow> mset (fst (shuffle_from E k p xs)) = mset xs"
proof (induction k arbitrary: p xs)
  case 0
  then show ?case by simp
next
  case (Suc k)
  let ?j = "urandom E p mod (Suc k + 1)"
  have "?j < Suc (Suc k)" by simp
  with Suc.prems have j: "?j < length xs" by linarith
  have sw: "mset (xs[Suc k := xs ! ?j, ?j := xs ! Suc k]) = mset xs"
    using mset_swap [OF j Suc.prems] .
  have "k < length (xs[Suc k := xs ! ?j, ?j := xs ! Suc k])" using Suc.prems by simp
  from Suc.IH [OF this] sw show ?case by (simp add: Let_def)
qed

lemma shuffle_mset: "mset (fst (shuffle E p xs)) = mset xs"
  by (cases xs) (simp_all add: shuffle_def shuffle_from_mset)

lemma shuffle_set: "set (fst (shuffle E p xs)) = set xs"
  by (metis shuffle_mset set_mset_mset)

lemma shuffle_length: "length (fst (shuffle E p xs)) = length xs"
  by (metis shuffle_mset size_mset)


lemma pop_letter_eq:
  "preserve_letter_distribution s \<Longrightarrow>
   pop_letter E s c =
     (case popped_class E c of
        Consonant \<Rightarrow> (case cons s of [] \<Rightarrow> ([], s) | x # r \<Rightarrow> (x, s\<lparr>cons := r\<rparr>))
      | Vowel \<Rightarrow> (case vowels s of [] \<Rightarrow> ([], s) | x # r \<Rightarrow> (x, s\<lparr>vowels := r\<rparr>))
      | OtherLetter \<Rightarrow> (case alpha s of [] \<Rightarrow> ([], s) | x # r \<Rightarrow> (x, s\<lparr>alpha := r\<rparr>)))"
  by (simp add: pop_letter_def popped_class_def pop0_def Let_def split: list.splits)

lemma ready_pop_letter:
  assumes "ready E s (c # cs)" and "isalpha E c" and "pop_letter E s c = (l, s1)"
  shows "good_letter E l \<and> ready E s1 cs"
proof (cases "popped_class E c")
  case Consonant
  with assms show ?thesis
    by (cases "cons s") (auto simp: ready_def pop_letter_eq digits_of_def)
next
  case Vowel
  with assms show ?thesis
    by (cases "vowels s") (auto simp: ready_def pop_letter_eq digits_of_def)
next
  case OtherLetter
  with assms show ?thesis
    by (cases "alpha s") (auto simp: ready_def pop_letter_eq digits_of_def)
qed

lemma ready_pop_digit:
  assumes "ready E s (c # cs)" and "\<not> isalpha E c" and "isdigit E c"
  shows "\<exists>d rest. digits s = d # rest \<and> \<not> isalpha E d \<and> isdigit E d
           \<and> ready E (s\<lparr>digits := rest\<rparr>) cs"
  using assms by (cases "digits s") (auto simp: ready_def digits_of_def)

lemma ready_literal:
  assumes "ready E s (c # cs)" and "\<not> isalpha E c" and "\<not> isdigit E c"
  shows "ready E s cs"
  using assms by (auto simp: ready_def digits_of_def)

lemma flush_loop_ready:
  "ready E s cs \<Longrightarrow>
   \<exists>ts s'. flush_loop E s cs = Inr (ts, s')
     \<and> list_all2 (\<lambda>c t. \<exists>x. t = [x] \<and> same_kind E c x) cs ts"
proof (induction cs arbitrary: s)
  case Nil
  then show ?case by simp
next
  case (Cons c cs)
  show ?case
  proof (cases "isalpha E c")
    case True
    obtain l s1 where pl: "pop_letter E s c = (l, s1)" by fastforce
    from ready_pop_letter [OF Cons.prems True pl]
    have g: "good_letter E l" and r: "ready E s1 cs" by simp_all
    from Cons.IH [OF r] obtain ts s' where
      ih: "flush_loop E s1 cs = Inr (ts, s')"
          "list_all2 (\<lambda>c t. \<exists>x. t = [x] \<and> same_kind E c x) cs ts" by blast
    from g obtain x m where l: "l = [x]" "isalpha E x" "upper E x = [m]" "isalpha E m"
      by (auto simp: good_letter_def split: list.splits)
    from True pl ih l show ?thesis
      by (simp add: same_kind_def upper_str_def)
  next
    case False
    show ?thesis
    proof (cases "isdigit E c")
      case True
      from ready_pop_digit [OF Cons.prems False True] obtain d rest where
        d: "digits s = d # rest" "\<not> isalpha E d" "isdigit E d"
           "ready E (s\<lparr>digits := rest\<rparr>) cs" by blast
      from Cons.IH [OF d(4)] obtain ts s' where
        ih: "flush_loop E (s\<lparr>digits := rest\<rparr>) cs = Inr (ts, s')"
            "list_all2 (\<lambda>c t. \<exists>x. t = [x] \<and> same_kind E c x) cs ts" by blast
      from False True d ih show ?thesis
        by (simp add: same_kind_def pop0_def)
    next
      case nd: False
      from Cons.IH [OF ready_literal [OF Cons.prems False nd]] obtain ts s' where
        ih: "flush_loop E s cs = Inr (ts, s')"
            "list_all2 (\<lambda>c t. \<exists>x. t = [x] \<and> same_kind E c x) cs ts" by blast
      from False nd ih show ?thesis
        by (simp add: same_kind_def)
    qed
  qed
qed

lemma concat_singletons:
  "list_all2 (\<lambda>c t. \<exists>x. t = [x] \<and> P c x) cs ts \<Longrightarrow> list_all2 P cs (concat ts)"
  by (induction cs ts rule: list_all2_induct) auto

lemma scramble_preserve:
  "preserve_letter_distribution s \<Longrightarrow>
   scramble E p s =
     (let a = shuffle E p (alpha s); c = shuffle E (snd a) (cons s);
          v = shuffle E (snd c) (vowels s); d = shuffle E (snd v) (digits s)
      in case flush E (s\<lparr>alpha := fst a, cons := fst c, vowels := fst v, digits := fst d\<rparr>) of
           Inl e \<Rightarrow> Inl e
         | Inr (t, s') \<Rightarrow> Inr (t, s', snd d))"
  by (auto simp: scramble_def Let_def split: prod.splits sum.splits)

lemma ready_after_feed:
  assumes t: "\<forall>c\<in>set t. tame E c"
  shows "ready E \<lparr>buf = t, alpha = fst (shuffle E p1 (letters_of E OtherLetter t)),
                  cons = fst (shuffle E p2 (letters_of E Consonant t)),
                  vowels = fst (shuffle E p3 (letters_of E Vowel t)),
                  digits = fst (shuffle E p4 (digits_of E t)),
                  preserve_letter_distribution = True\<rparr> t"
proof -
  have cls: "filter (\<lambda>c. isalpha E c \<and> popped_class E c = k) t
             = filter (\<lambda>c. isalpha E c \<and> fed_class E c = k) t" for k
    using t by (intro filter_cong) (auto simp: tame_def)
  have good: "good_letter E l" if "l \<in> set (letters_of E k t)" for l k
    using that t by (auto simp: letters_of_def tame_def)
  have dig: "\<not> isalpha E d \<and> isdigit E d" if "d \<in> set (digits_of E t)" for d
    using that by (simp add: digits_of_def)
  show ?thesis
    using good dig
    by (simp add: ready_def shuffle_length shuffle_set)
       (auto simp: letters_of_def cls)
qed


lemma scramble_text_tame:
  assumes "\<forall>c\<in>set t. tame E c"
  shows "\<exists>out p'. scramble_text E p t = Inr (out, p') \<and> list_all2 (same_kind E) t out"
proof -
  let ?a = "shuffle E p (letters_of E OtherLetter t)"
  let ?c = "shuffle E (snd ?a) (letters_of E Consonant t)"
  let ?v = "shuffle E (snd ?c) (letters_of E Vowel t)"
  let ?d = "shuffle E (snd ?v) (digits_of E t)"
  let ?s = "\<lparr>buf = t, alpha = fst ?a, cons = fst ?c, vowels = fst ?v, digits = fst ?d,
             preserve_letter_distribution = True\<rparr>"
  from flush_loop_ready [OF ready_after_feed [OF assms, of p "snd ?a" "snd ?c" "snd ?v"]]
  obtain ts s' where
    fl: "flush_loop E ?s t = Inr (ts, s')"
        "list_all2 (\<lambda>c t. \<exists>x. t = [x] \<and> same_kind E c x) t ts" by blast
  have "scramble_text E p t = Inr (concat ts, snd ?d)"
    using fl(1) by (simp add: scramble_text_def feed_fresh scramble_preserve Let_def flush_def)
  with concat_singletons [OF fl(2)] show ?thesis by blast
qed

lemma same_kind_literal:
  assumes "list_all2 (same_kind E) t out" and "\<not> isalpha E x" and "\<not> isdigit E x"
  shows "list_all2 (\<lambda>c y. (c = x) = (y = x)) t out"
  using assms(1)
  by (rule list_all2_mono) (use assms(2,3) in \<open>auto simp: same_kind_def split: if_splits\<close>)


section \<open>Length of the scrambled text\<close>

text \<open>
  C1. The claim: for every text, the scrambled text has the length of the text. The
  code breaks it at the one-character text U+2102: \<open>feed\<close> looks the NFKD head \<open>C\<close> up
  in the lower-case consonants without lower-casing it and files the letter under
  \<open>_alpha\<close>; \<open>_pop_letter\<close> lower-cases the head, takes the letter for a consonant and
  pops the empty \<open>_cons\<close>; the \<open>IndexError\<close> is caught and the empty string returned.
  The scrambled text is empty.
\<close>

theorem scramble_drops_double_struck_C:
  "scramble_text (python (\<lambda>i. 0)) 0 [0x2102] = Inr ([], 0)"
  by (simp add: scrambler_defs py_defs)

text \<open>
  A second way to another length: the letter popped for an upper-case position is
  upper-cased, and \<open>upper\<close> of U+00DF is \<open>SS\<close>.
\<close>

lemma scramble_sharp_s_grows:
  "scramble_text (python (\<lambda>i. 0)) 0 [0xDF, 0xC6] = Inr ([0xE6, 0x53, 0x53], 1)"
  by (simp add: scrambler_defs py_defs)

text \<open>
  For a text of tame characters the claim holds, and more: \<open>scramble\<close> returns, the
  scrambled text has the length of the text, letters stand where letters stood, digits
  where digits stood, and every other character keeps its place.
\<close>

lemma scramble_tame_length:
  assumes "\<forall>c\<in>set t. tame E c"
  shows "\<exists>out p'. scramble_text E p t = Inr (out, p') \<and> length out = length t
           \<and> (\<forall>i<length t. same_kind E (t ! i) (out ! i))"
  using scramble_text_tame [OF assms, of p]
  by (auto simp: list_all2_conv_all_nth)

text \<open>Every ASCII character is tame in the sample of the library.\<close>

lemma ascii_is_tame: "c < 128 \<Longrightarrow> tame (python r) c"
  by (auto simp: tame_def fed_class_def popped_class_def good_letter_def py_defs Let_def)

section \<open>The characters of each class\<close>

text \<open>
  C7. The claim: the scrambled text holds the same characters per class as the text,
  each position keeping its case. The code breaks it at the text U+2102, \<open>b\<close>, by the
  defect of C1: the position of U+2102 pops the consonant \<open>b\<close> and upper-cases it, the
  position of \<open>b\<close> finds \<open>_cons\<close> empty, and U+2102 itself is never written. The
  scrambled text is \<open>B\<close>.
\<close>

theorem scramble_loses_class_members:
  "scramble_text (python (\<lambda>i. 0)) 0 [0x2102, 98] = Inr (u ''B'', 0)"
  by (simp add: scrambler_defs py_defs)

text \<open>
  Where \<open>feed\<close> and \<open>_pop_letter\<close> agree on the class of every letter of the text (they
  do on ASCII), the claim holds: \<open>scramble\<close> returns; the strings popped at the positions
  of a class are a permutation of the lower-cased letters of that class, the digits
  popped a permutation of the digits; every other character is written back as it is;
  and the string popped at an upper-case position is upper-cased.
\<close>

lemma flush_loop_replays:
  "filled E s cs \<Longrightarrow>
   \<exists>ls s'. flush_loop E s cs = Inr (map (\<lambda>(c, l). recase E c l) (zip cs ls), s')
      \<and> replayed E s cs ls"
proof (induction cs arbitrary: s)
  case Nil
  then show ?case
    by (simp add: replayed_def popped_at_def digits_at_def filled_def digits_of_def)
next
  case (Cons c cs)
  show ?case
  proof (cases "isalpha E c")
    case True
    obtain l s1 where pl: "pop_letter E s c = (l, s1)" by fastforce
    have "filled E s1 cs \<and> (\<forall>ls. replayed E s1 cs ls \<longrightarrow> replayed E s (c # cs) (l # ls))"
    proof (cases "popped_class E c")
      case Consonant
      with Cons.prems True pl show ?thesis
        by (cases "cons s")
           (auto simp: filled_def replayed_def pop_letter_eq digits_of_def popped_at_def
              digits_at_def)
    next
      case Vowel
      with Cons.prems True pl show ?thesis
        by (cases "vowels s")
           (auto simp: filled_def replayed_def pop_letter_eq digits_of_def popped_at_def
              digits_at_def)
    next
      case OtherLetter
      with Cons.prems True pl show ?thesis
        by (cases "alpha s")
           (auto simp: filled_def replayed_def pop_letter_eq digits_of_def popped_at_def
              digits_at_def)
    qed
    then have f: "filled E s1 cs"
      and r: "\<And>ls. replayed E s1 cs ls \<Longrightarrow> replayed E s (c # cs) (l # ls)" by blast+
    from Cons.IH [OF f] obtain ls s' where
      ih: "flush_loop E s1 cs = Inr (map (\<lambda>(c, l). recase E c l) (zip cs ls), s')"
          "replayed E s1 cs ls" by blast
    from True pl ih(1) have "flush_loop E s (c # cs)
        = Inr (map (\<lambda>(c, l). recase E c l) (zip (c # cs) (l # ls)), s')"
      by (simp add: recase_def)
    with r [OF ih(2)] show ?thesis by blast
  next
    case False
    show ?thesis
    proof (cases "isdigit E c")
      case True
      from Cons.prems False True obtain d rest where d: "digits s = d # rest"
        by (cases "digits s") (auto simp: filled_def digits_of_def)
      have f: "filled E (s\<lparr>digits := rest\<rparr>) cs"
        using Cons.prems False True d by (auto simp: filled_def digits_of_def)
      from Cons.IH [OF f] obtain ls s' where
        ih: "flush_loop E (s\<lparr>digits := rest\<rparr>) cs
               = Inr (map (\<lambda>(c, l). recase E c l) (zip cs ls), s')"
            "replayed E (s\<lparr>digits := rest\<rparr>) cs ls" by blast
      from False True d ih(1) have "flush_loop E s (c # cs)
          = Inr (map (\<lambda>(c, l). recase E c l) (zip (c # cs) ([d] # ls)), s')"
        by (simp add: recase_def pop0_def)
      moreover from ih(2) False True d have "replayed E s (c # cs) ([d] # ls)"
        by (simp add: replayed_def popped_at_def digits_at_def)
      ultimately show ?thesis by blast
    next
      case nd: False
      have f: "filled E s cs"
        using Cons.prems False nd by (auto simp: filled_def digits_of_def)
      from Cons.IH [OF f] obtain ls s' where
        ih: "flush_loop E s cs = Inr (map (\<lambda>(c, l). recase E c l) (zip cs ls), s')"
            "replayed E s cs ls" by blast
      from False nd ih(1) have "flush_loop E s (c # cs)
          = Inr (map (\<lambda>(c, l). recase E c l) (zip (c # cs) ([c] # ls)), s')"
        by (simp add: recase_def)
      moreover from ih(2) False nd have "replayed E s (c # cs) ([c] # ls)"
        by (simp add: replayed_def popped_at_def digits_at_def)
      ultimately show ?thesis by blast
    qed
  qed
qed

lemma scramble_permutes_classes:
  assumes "\<forall>c\<in>set t. isalpha E c \<longrightarrow> fed_class E c = popped_class E c"
  shows "\<exists>ls p'. scramble_text E p t = Inr (concat (map (\<lambda>(c, l). recase E c l) (zip t ls)), p')
           \<and> length ls = length t
           \<and> (\<forall>k. mset (popped_at E k t ls) = mset (letters_of E k t))
           \<and> mset (digits_at E t ls) = mset (map (\<lambda>d. [d]) (digits_of E t))
           \<and> list_all2 (\<lambda>c l. isalpha E c \<or> isdigit E c \<or> l = [c]) t ls"
proof -
  let ?a = "shuffle E p (letters_of E OtherLetter t)"
  let ?c = "shuffle E (snd ?a) (letters_of E Consonant t)"
  let ?v = "shuffle E (snd ?c) (letters_of E Vowel t)"
  let ?d = "shuffle E (snd ?v) (digits_of E t)"
  let ?s = "\<lparr>buf = t, alpha = fst ?a, cons = fst ?c, vowels = fst ?v, digits = fst ?d,
             preserve_letter_distribution = True\<rparr>"
  have cls: "filter (\<lambda>c. isalpha E c \<and> popped_class E c = k) t
             = filter (\<lambda>c. isalpha E c \<and> fed_class E c = k) t" for k
    using assms by (intro filter_cong) auto
  have "filled E ?s t"
    by (simp add: filled_def shuffle_length cls) (simp add: letters_of_def)
  from flush_loop_replays [OF this] obtain ls s' where
    fl: "flush_loop E ?s t = Inr (map (\<lambda>(c, l). recase E c l) (zip t ls), s')"
    and r: "replayed E ?s t ls" by blast
  have sc: "scramble_text E p t = Inr (concat (map (\<lambda>(c, l). recase E c l) (zip t ls)), snd ?d)"
    using fl by (simp add: scramble_text_def feed_fresh scramble_preserve Let_def flush_def)
  have "mset (popped_at E k t ls) = mset (letters_of E k t)" for k
    using r by (cases k) (simp_all add: replayed_def shuffle_mset)
  moreover have "mset (digits_at E t ls) = mset (map (\<lambda>d. [d]) (digits_of E t))"
    using r by (simp add: replayed_def shuffle_mset)
  ultimately show ?thesis using sc r by (auto simp: replayed_def)
qed


section \<open>Popping an empty class buffer\<close>





text \<open>
  The pop of the digit buffer is the one unguarded pop: at a digit position with no
  digit left the loop of \<open>flush\<close> raises \<open>IndexError\<close>. After \<open>feed\<close> no replay meets
  that state, as \<open>scramble_text_returns\<close> shows.
\<close>

lemma digit_pop_unguarded:
  "\<not> isalpha E c \<Longrightarrow> isdigit E c \<Longrightarrow> digits s = [] \<Longrightarrow> flush_loop E s (c # cs) = Inl IndexError"
  by (simp add: pop0_def)



section \<open>Link rewriting\<close>

text \<open>
  C4, as claimed: the \<open>href\<close> of \<open><a href="/page">\<close> under the base
  \<open>https://example.com/\<close> becomes \<open>?url=https%3A%2F%2Fexample.com%2Fpage\<close>. It does
  not: \<open>quote\<close> keeps \<open>/\<close>.
\<close>

theorem link_slashes_not_encoded:
  "process_attr_value (python (\<lambda>i. 0))
     (HTMLScrambler (u ''https://example.com/'') False None None True) 0
     (u ''a'') (u ''href'') (u ''/page'')
   = Inr (u ''?url=https%3A//example.com/page'', 0)
   \<and> u ''?url=https%3A//example.com/page'' \<noteq> u ''?url=https%3A%2F%2Fexample.com%2Fpage''"
  by (simp add: html_defs u_def py_defs quote_defs)

text \<open>
  C4, amended: with honeypot mode off, whenever \<open>urljoin\<close> resolves \<open>/page\<close> against
  \<open>https://example.com/\<close> to \<open>https://example.com/page\<close>, the start tag is rebuilt as
  \<open><a href="?url=https%3A//example.com/page">\<close>: the colon is percent-encoded, the
  slashes are kept.
\<close>

theorem link_rewriting:
  assumes "urljoin E (u ''https://example.com/'') (u ''/page'')
           = Inr (u ''https://example.com/page'')"
  shows "build_starttag E (HTMLScrambler (u ''https://example.com/'') False src tgt suppress) p
           (u ''a'') [(u ''href'', Some (u ''/page''))] False
         = Inr (u ''<a href=\"?url=https%3A//example.com/page\">'', p)"
  using assms by (simp add: html_defs u_def quote_defs)

theorem link_rewriting_witness:
  "urljoin (python (\<lambda>i. 0)) (u ''https://example.com/'') (u ''/page'')
     = Inr (u ''https://example.com/page'')
   \<and> build_starttag (python (\<lambda>i. 0))
         (HTMLScrambler (u ''https://example.com/'') False None None True) 0
         (u ''a'') [(u ''href'', Some (u ''/page''))] False
       = Inr (u ''<a href=\"?url=https%3A//example.com/page\">'', 0)"
proof -
  have j: "urljoin (python (\<lambda>i. 0)) (u ''https://example.com/'') (u ''/page'')
           = Inr (u ''https://example.com/page'')"
    by (simp add: py_defs u_def)
  from link_rewriting [OF j] j show ?thesis by simp
qed

text \<open>
  A \<open>ValueError\<close> of \<open>urljoin\<close> is not caught anywhere: it leaves \<open>_process_attr_value\<close>,
  the handler and \<open>feed\<close>.
\<close>

lemma urljoin_error_propagates:
  assumes "urljoin E (base_url h) v = Inl e"
  shows "process_attr_value E h p (u ''a'') (u ''href'') v = Inl e"
    and "feed_events E h p (StartTag (u ''a'') [(u ''href'', Some v)] # doc) = Inl e"
proof -
  show pav: "process_attr_value E h p (u ''a'') (u ''href'') v = Inl e"
    using assms by (simp add: process_attr_value_def)
  have "build_starttag E h p (u ''a'') [(u ''href'', Some v)] False = Inl e"
    using pav by (simp add: build_starttag_def)
  then show "feed_events E h p (StartTag (u ''a'') [(u ''href'', Some v)] # doc) = Inl e"
    by (simp add: handle_starttag_def DONT_SCRAMBLE_def u_def)
qed

section \<open>Scrambled attribute values\<close>








section \<open>Placeholders and reassembly\<close>

lemma startswith_marks:
  assumes "list_all2 (\<lambda>a b. (a = 60) = (b = 60) \<and> (a = 62) = (b = 62)) s (t :: nat list)"
  shows "startswith s [60, 62 :: nat] = startswith t [60, 62]"
proof (cases s)
  case Nil
  with assms show ?thesis by simp
next
  case (Cons a s')
  with assms obtain b t' where t: "t = b # t'" "(a = 60) = (b = 60)"
    "list_all2 (\<lambda>a b. (a = 60) = (b = 60) \<and> (a = 62) = (b = 62)) s' t'"
    by (auto simp: list_all2_Cons1)
  show ?thesis
  proof (cases s')
    case Nil
    with t Cons show ?thesis by simp
  next
    case (Cons a' s'')
    with t(3) obtain b' t'' where "t' = b' # t''" "(a' = 62) = (b' = 62)"
      by (auto simp: list_all2_Cons1)
    with t \<open>s = a # s'\<close> Cons show ?thesis by simp
  qed
qed

lemma split_from_Nil: "split_from sep cur [] = [cur]"
  by (simp add: split_from.simps)

lemma split_from_hit:
  "s \<noteq> [] \<Longrightarrow> sep \<noteq> [] \<Longrightarrow> startswith s sep \<Longrightarrow>
   split_from sep cur s = cur # split_from sep [] (drop (length sep) s)"
  by (subst split_from.simps) simp

lemma split_from_miss:
  "\<not> startswith (a # s) sep \<Longrightarrow> split_from sep cur (a # s) = split_from sep (cur @ [a]) s"
  by (subst split_from.simps) simp

lemma split_from_marks:
  "list_all2 (\<lambda>a b. (a = 60) = (b = 60) \<and> (a = 62) = (b = 62)) s (t :: nat list) \<Longrightarrow>
   length (split_from [60, 62 :: nat] cur s) = length (split_from [60, 62] cur' t)"
proof (induction s arbitrary: cur cur' t rule: length_induct)
  case (1 s)
  let ?R = "\<lambda>a b :: nat. (a = 60) = (b = 60) \<and> (a = 62) = (b = 62)"
  show ?case
  proof (cases s)
    case Nil
    with "1.prems" show ?thesis by (simp add: split_from_Nil)
  next
    case (Cons a s')
    with "1.prems" obtain b t' where t: "t = b # t'" "list_all2 ?R s' t'"
      by (auto simp: list_all2_Cons1)
    have sw: "startswith s [60, 62] = startswith t [60, 62]"
      by (rule startswith_marks [OF "1.prems"])
    show ?thesis
    proof (cases "startswith s [60, 62]")
      case True
      have d: "list_all2 ?R (drop 2 s) (drop 2 t)"
        using "1.prems" by (rule list_all2_dropI)
      have "length (drop 2 s) < length s" using Cons by simp
      with "1.IH" d have "length (split_from [60, 62] [] (drop 2 s))
                          = length (split_from [60, 62] [] (drop 2 t))" by blast
      moreover from True sw have "startswith t [60, 62]" by simp
      ultimately show ?thesis using True Cons t
        by (simp add: split_from_hit)
    next
      case False
      have "length s' < length s" using Cons by simp
      with "1.IH" t(2) have "length (split_from [60, 62] (cur @ [a]) s')
                          = length (split_from [60, 62] (cur' @ [b]) t')" by blast
      moreover from False sw have "\<not> startswith t [60, 62]" by simp
      ultimately show ?thesis using False Cons t
        by (simp add: split_from_miss)
    qed
  qed
qed

lemma split_marks:
  assumes "list_all2 (same_kind E) t out"
    and "\<not> isalpha E 60" "\<not> isdigit E 60" "\<not> isalpha E 62" "\<not> isdigit E 62"
  shows "length (split out (u ''<>'')) = length (split t (u ''<>''))"
proof -
  have "list_all2 (\<lambda>a b. (a = 60) = (b = 60) \<and> (a = 62) = (b = 62)) out t"
    using same_kind_literal [OF assms(1,2,3)] same_kind_literal [OF assms(1,4,5)]
    by (auto simp: list_all2_conv_all_nth)
  from split_from_marks [OF this] show ?thesis by (simp add: split_def u_def)
qed

lemma convert_html: "convert (h\<lparr>html := ms\<rparr>) chunk = convert h chunk"
  by (simp add: convert_def)

lemma reassemble_aligned:
  "reassemble h chunks = Inr (ts, h') \<Longrightarrow> length chunks = length (html h) + 1 \<Longrightarrow>
   html h' = []
   \<and> (\<exists>pieces. list_all2 (\<lambda>chunk piece. convert h chunk = Inr piece) chunks pieces
        \<and> concat ts = concat (map (\<lambda>(c, m). c @ m) (zip (butlast pieces) (html h))) @ last pieces)"
proof (induction chunks arbitrary: h ts)
  case Nil
  then show ?case by simp
next
  case (Cons chunk chunks)
  from Cons.prems(1) obtain t where t: "convert h chunk = Inr t"
    by (auto split: sum.splits)
  show ?case
  proof (cases "html h")
    case Nil
    with Cons.prems t have "chunks = []" "ts = [t]" "h' = h" by auto
    with Nil t show ?thesis by auto
  next
    case (Cons m ms)
    let ?h = "h\<lparr>html := ms\<rparr>"
    from Cons.prems(1) t Cons obtain ts' where
      r: "reassemble ?h chunks = Inr (ts', h')" and ts: "ts = t # m # ts'"
      by (auto split: sum.splits)
    have len: "length chunks = length (html ?h) + 1" using Cons.prems(2) Cons by simp
    from Cons.IH [OF r len] obtain pieces where
      e: "html h' = []"
      and p: "list_all2 (\<lambda>chunk piece. convert ?h chunk = Inr piece) chunks pieces"
      and c: "concat ts' = concat (map (\<lambda>(c, m). c @ m) (zip (butlast pieces) ms)) @ last pieces"
      by auto
    from p len have ne: "pieces \<noteq> []" by (auto simp: list_all2_Cons1 dest: list_all2_lengthD)
    have "list_all2 (\<lambda>chunk piece. convert h chunk = Inr piece) (chunk # chunks) (t # pieces)"
      using p t by (simp add: convert_html)
    moreover have "concat ts = concat (map (\<lambda>(c, m). c @ m) (zip (butlast (t # pieces)) (html h)))
                     @ last (t # pieces)"
      using ts c ne Cons by simp
    ultimately show ?thesis using e by blast
  qed
qed

lemma handle_placeholders:
  assumes "handle E h p ev = Inr (h', p')" and "\<forall>d. ev = Data d \<longrightarrow> d \<noteq> u ''<>''"
    and "count_list (hbuf h) (u ''<>'') = length (html h)"
  shows "count_list (hbuf h') (u ''<>'') = length (html h')"
  using assms
  by (cases ev)
     (auto simp: handle_starttag_def handle_startendtag_def handle_endtag_def handle_data_def
        handle_entityref_def handle_charref_def handle_comment_def handle_decl_def emit_def
        Let_def split: sum.splits if_splits)

lemma feed_events_placeholders:
  "feed_events E h p doc = Inr (h', p') \<Longrightarrow> \<forall>d. Data d \<in> set doc \<longrightarrow> d \<noteq> u ''<>'' \<Longrightarrow>
   count_list (hbuf h) (u ''<>'') = length (html h) \<Longrightarrow>
   count_list (hbuf h') (u ''<>'') = length (html h')"
proof (induction doc arbitrary: h p)
  case Nil
  then show ?case by simp
next
  case (Cons ev doc)
  from Cons.prems(1) obtain h1 p1 where
    h1: "handle E h p ev = Inr (h1, p1)" and r: "feed_events E h1 p1 doc = Inr (h', p')"
    by (auto split: sum.splits)
  have "count_list (hbuf h1) (u ''<>'') = length (html h1)"
    using handle_placeholders [OF h1 _ Cons.prems(3)] Cons.prems(2) by simp
  from Cons.IH [OF r _ this] Cons.prems(2) show ?case by simp
qed

text \<open>
  C2. The claim: the placeholders of the segment stream are as many as the entries of
  the markup queue, and reassembly takes the entries one by one at the placeholders.
  The code breaks it where the document's own text holds \<open><>\<close>: the placeholder is
  the text \<open><>\<close> in the buffer (``the special value \<open><>\<close> indicates the position of
  HTML code''), and for the document \<open>a<>b<br>!\<close> the tokenizer hands over \<open>a\<close>, \<open><\<close>,
  \<open>>b\<close>, the tag and \<open>!\<close>. The queue holds one entry, the scrambled text \<open>a<>b<>!\<close>
  splits into three pieces, the entry is taken after the first piece, at the text's
  own \<open><>\<close>, and none after the other two: the page is \<open>a<br>b!\<close>, the tag moved and
  the text \<open><>\<close> lost.
\<close>

theorem text_placeholder_collision:
  "feed_events (python (\<lambda>i. 0)) (HTMLScrambler (u ''https://example.com/'') False None None True) 0
     [Data (u ''a''), Data (u ''<''), Data (u ''>b''), StartTag (u ''br'') [], Data (u ''!'')]
   = Inr (\<lparr>base_url = u ''https://example.com/'', is_honeypot = False, source_encoding = None,
           target_encoding = None, suppress_scripts = True,
           hbuf = [u ''a'', u ''<'', u ''>b'', u ''<>'', u ''!''], html = [u ''<br>''],
           is_scrambling = True, is_script = False, is_xhtml = False\<rparr>, 0)
   \<and> scramble_text (python (\<lambda>i. 0)) 0 (concat [u ''a'', u ''<'', u ''>b'', u ''<>'', u ''!''])
       = Inr (u ''a<>b<>!'', 0)
   \<and> split (u ''a<>b<>!'') (u ''<>'') = [u ''a'', u ''b'', u ''!'']
   \<and> pipeline (python (\<lambda>i. 0)) (u ''https://example.com/'') False None None True
         [Data (u ''a''), Data (u ''<''), Data (u ''>b''), StartTag (u ''br'') [], Data (u ''!'')]
       = Inr (u ''a<br>b!'')"
  by (simp add: html_defs scrambler_defs py_defs split_from.simps)

text \<open>
  Where no text run of the document holds \<open><\<close>, the claim holds: the buffer has as many
  \<open><>\<close> entries as the queue has entries, and for tame characters (with \<open><\<close> and \<open>>\<close>
  neither letters nor digits) the scrambled text splits into one piece more than the
  queue has entries, the page is the converted pieces, each but the last followed by
  one entry of the queue in order, and the queue ends empty.
\<close>

lemma reassembly_of_aligned_buffer:
  assumes tame: "\<forall>c\<in>set (concat (hbuf h)). tame E c"
    and lit: "\<not> isalpha E 60" "\<not> isdigit E 60" "\<not> isalpha E 62" "\<not> isdigit E 62"
    and al: "length (split (concat (hbuf h)) (u ''<>'')) = length (html h) + 1"
    and run: "HTMLScrambler_scramble E h p = Inr (page, h', p')"
  shows "\<exists>out pieces. scramble_text E p (concat (hbuf h)) = Inr (out, p')
           \<and> list_all2 (same_kind E) (concat (hbuf h)) out
           \<and> list_all2 (\<lambda>chunk piece. convert h chunk = Inr piece) (split out (u ''<>'')) pieces
           \<and> length pieces = length (html h) + 1
           \<and> page = concat (map (\<lambda>(c, m). c @ m) (zip (butlast pieces) (html h))) @ last pieces
           \<and> html h' = []"
proof -
  from scramble_text_tame [OF tame, of p] obtain out q where
    sc: "scramble_text E p (concat (hbuf h)) = Inr (out, q)"
    and k: "list_all2 (same_kind E) (concat (hbuf h)) out" by blast
  from sc obtain s' where
    sc': "scramble E p (feed E (Scrambler True) (concat (hbuf h))) = Inr (out, s', q)"
    by (auto simp: scramble_text_def split: sum.splits)
  from run sc' obtain ts where
    r: "reassemble h (split out (u ''<>'')) = Inr (ts, h')" and page: "page = concat ts"
    and q: "q = p'"
    by (auto simp: HTMLScrambler_scramble_def split: sum.splits)
  have len: "length (split out (u ''<>'')) = length (html h) + 1"
    using split_marks [OF k lit] al by simp
  from reassemble_aligned [OF r len] obtain pieces where
    e: "html h' = []"
    and p: "list_all2 (\<lambda>chunk piece. convert h chunk = Inr piece) (split out (u ''<>'')) pieces"
    and c: "concat ts = concat (map (\<lambda>(c, m). c @ m) (zip (butlast pieces) (html h))) @ last pieces"
    by blast
  from p len have "length pieces = length (html h) + 1" by (auto dest: list_all2_lengthD)
  with e c page p sc k q show ?thesis by blast
qed

lemma split_from_skip:
  "60 \<notin> set e \<Longrightarrow> split_from [60, 62 :: nat] cur (e @ rest) = split_from [60, 62] (cur @ e) rest"
proof (induction e arbitrary: cur)
  case Nil
  then show ?case by simp
next
  case (Cons x e)
  then have "\<not> startswith (x # (e @ rest)) [60, 62 :: nat]" by simp
  from split_from_miss [OF this] Cons show ?case by simp
qed

lemma split_from_entries:
  "\<forall>e\<in>set es. e = [60, 62 :: nat] \<or> 60 \<notin> set e \<Longrightarrow>
   length (split_from [60, 62] cur (concat es)) = count_list es [60, 62] + 1"
proof (induction es arbitrary: cur)
  case Nil
  then show ?case by (simp add: split_from_Nil)
next
  case (Cons e es)
  then have ih: "\<And>cur. length (split_from [60, 62] cur (concat es)) = count_list es [60, 62] + 1"
    by simp
  show ?case
  proof (cases "e = [60, 62]")
    case True
    then have "split_from [60, 62] cur (concat (e # es))
               = cur # split_from [60, 62] [] (concat es)"
      by (simp add: split_from_hit)
    with True ih show ?thesis by simp
  next
    case False
    with Cons.prems have "60 \<notin> set e" by simp
    from split_from_skip [OF this] False ih show ?thesis by simp
  qed
qed

lemma handle_no_angle:
  assumes "handle E h p ev = Inr (h', p')" and "\<forall>d. ev = Data d \<longrightarrow> 60 \<notin> set d"
    and "\<forall>e\<in>set (hbuf h). e = u ''<>'' \<or> 60 \<notin> set e"
  shows "\<forall>e\<in>set (hbuf h'). e = u ''<>'' \<or> 60 \<notin> set e"
  using assms
  by (cases ev)
     (auto simp: handle_starttag_def handle_startendtag_def handle_endtag_def handle_data_def
        handle_entityref_def handle_charref_def handle_comment_def handle_decl_def emit_def
        Let_def split: sum.splits if_splits)

lemma feed_events_no_angle:
  "feed_events E h p doc = Inr (h', p') \<Longrightarrow> \<forall>d. Data d \<in> set doc \<longrightarrow> 60 \<notin> set d \<Longrightarrow>
   \<forall>e\<in>set (hbuf h). e = u ''<>'' \<or> 60 \<notin> set e \<Longrightarrow>
   \<forall>e\<in>set (hbuf h'). e = u ''<>'' \<or> 60 \<notin> set e"
proof (induction doc arbitrary: h p)
  case Nil
  then show ?case by simp
next
  case (Cons ev doc)
  from Cons.prems(1) obtain h1 p1 where
    h1: "handle E h p ev = Inr (h1, p1)" and r: "feed_events E h1 p1 doc = Inr (h', p')"
    by (auto split: sum.splits)
  have "\<forall>e\<in>set (hbuf h1). e = u ''<>'' \<or> 60 \<notin> set e"
    using handle_no_angle [OF h1 _ Cons.prems(3)] Cons.prems(2) by simp
  from Cons.IH [OF r _ this] Cons.prems(2) show ?case by simp
qed

lemma no_angle_alignment:
  assumes fed: "feed_events E (HTMLScrambler base honeypot src tgt suppress) p0 doc = Inr (h, p)"
    and na: "\<forall>d. Data d \<in> set doc \<longrightarrow> 60 \<notin> set d"
  shows "count_list (hbuf h) (u ''<>'') = length (html h)"
    and "length (split (concat (hbuf h)) (u ''<>'')) = length (html h) + 1"
proof -
  have nd: "\<forall>d. Data d \<in> set doc \<longrightarrow> d \<noteq> u ''<>''"
    using na by (auto simp: u_def)
  from feed_events_placeholders [OF fed nd]
  show c: "count_list (hbuf h) (u ''<>'') = length (html h)"
    by (simp add: HTMLScrambler_def)
  have "\<forall>e\<in>set (hbuf h). e = u ''<>'' \<or> 60 \<notin> set e"
    using feed_events_no_angle [OF fed na] by (simp add: HTMLScrambler_def)
  then have "\<forall>e\<in>set (hbuf h). e = [60, 62] \<or> 60 \<notin> set e" by (simp add: u_def)
  from split_from_entries [OF this, of "[]"] c
  show "length (split (concat (hbuf h)) (u ''<>'')) = length (html h) + 1"
    by (simp add: split_def u_def)
qed

lemma placeholders_aligned_without_text_markers:
  assumes fed: "feed_events E (HTMLScrambler base honeypot src tgt suppress) p0 doc = Inr (h, p)"
    and na: "\<forall>d. Data d \<in> set doc \<longrightarrow> 60 \<notin> set d"
    and tame: "\<forall>c\<in>set (concat (hbuf h)). tame E c"
    and lit: "\<not> isalpha E 60" "\<not> isdigit E 60" "\<not> isalpha E 62" "\<not> isdigit E 62"
    and run: "HTMLScrambler_scramble E h p = Inr (page, h', p')"
  shows "count_list (hbuf h) (u ''<>'') = length (html h)
         \<and> (\<exists>out pieces. scramble_text E p (concat (hbuf h)) = Inr (out, p')
               \<and> list_all2 (same_kind E) (concat (hbuf h)) out
               \<and> list_all2 (\<lambda>chunk piece. convert h chunk = Inr piece) (split out (u ''<>'')) pieces
               \<and> length pieces = length (html h) + 1
               \<and> page = concat (map (\<lambda>(c, m). c @ m) (zip (butlast pieces) (html h)))
                          @ last pieces
               \<and> html h' = [])"
  using no_angle_alignment(1) [OF fed na]
    reassembly_of_aligned_buffer [OF tame lit no_angle_alignment(2) [OF fed na] run]
  by blast

section \<open>Characters the target encoding cannot represent\<close>











section \<open>The random draws\<close>

lemma shuffle_from_pos: "snd (shuffle_from E k p xs) = p + k"
  by (induction k arbitrary: p xs) (simp_all add: Let_def)

lemma shuffle_from_agree:
  "\<forall>q. p \<le> q \<and> q < p + k \<longrightarrow> r q = urandom E q \<Longrightarrow>
   shuffle_from (E\<lparr>urandom := r\<rparr>) k p xs = shuffle_from E k p xs"
proof (induction k arbitrary: p xs)
  case 0
  then show ?case by simp
next
  case (Suc k)
  have here: "r p = urandom E p" using Suc.prems by simp
  have "\<forall>q. Suc p \<le> q \<and> q < Suc p + k \<longrightarrow> r q = urandom E q" using Suc.prems by simp
  from Suc.IH [OF this] here show ?case by (simp add: Let_def)
qed

lemma shuffle_pos: "snd (shuffle E p xs) = p + (length xs - 1)"
  by (simp add: shuffle_def shuffle_from_pos)

lemma shuffle_agree:
  "\<forall>q. p \<le> q \<and> q < snd (shuffle E p xs) \<longrightarrow> r q = urandom E q \<Longrightarrow>
   shuffle (E\<lparr>urandom := r\<rparr>) p xs = shuffle E p xs"
  by (simp add: shuffle_def shuffle_from_pos shuffle_from_agree)

lemma feed_char_urandom: "feed_char (E\<lparr>urandom := r\<rparr>) s c = feed_char E s c"
  by (simp add: feed_char_def Let_def)

lemma feed_urandom: "feed (E\<lparr>urandom := r\<rparr>) s t = feed E s t"
  by (simp add: feed_def feed_char_urandom [abs_def])

lemma pop_letter_urandom: "pop_letter (E\<lparr>urandom := r\<rparr>) s c = pop_letter E s c"
  by (simp add: pop_letter_def Let_def cong: if_cong)

lemma flush_loop_urandom: "flush_loop (E\<lparr>urandom := r\<rparr>) s cs = flush_loop E s cs"
  by (induction cs arbitrary: s)
     (simp_all add: pop_letter_urandom upper_str_def cong: sum.case_cong prod.case_cong if_cong)

lemma flush_urandom: "flush (E\<lparr>urandom := r\<rparr>) s = flush E s"
  by (simp add: flush_def flush_loop_urandom)

lemma scramble_agree:
  assumes "scramble E p s = Inr (out, s', p')"
  shows "p \<le> p' \<and> ((\<forall>q. p \<le> q \<and> q < p' \<longrightarrow> r q = urandom E q) \<longrightarrow>
                     scramble (E\<lparr>urandom := r\<rparr>) p s = Inr (out, s', p'))"
proof -
  obtain a p1 where a: "shuffle E p (alpha s) = (a, p1)" by fastforce
  obtain c p2 where c: "(if preserve_letter_distribution s then shuffle E p1 (cons s)
                         else (cons s, p1)) = (c, p2)" by fastforce
  obtain v p3 where v: "(if preserve_letter_distribution s then shuffle E p2 (vowels s)
                         else (vowels s, p2)) = (v, p3)" by fastforce
  obtain d p4 where d: "shuffle E p3 (digits s) = (d, p4)" by fastforce
  from assms a c v d have p4: "p' = p4"
    by (auto simp: scramble_def split: sum.splits)
  have le1: "p \<le> p1" using a shuffle_pos [of E p "alpha s"] by simp
  have le2: "p1 \<le> p2" using c shuffle_pos [of E p1 "cons s"] by (auto split: if_splits)
  have le3: "p2 \<le> p3" using v shuffle_pos [of E p2 "vowels s"] by (auto split: if_splits)
  have le4: "p3 \<le> p4" using d shuffle_pos [of E p3 "digits s"] by simp
  have "scramble (E\<lparr>urandom := r\<rparr>) p s = Inr (out, s', p')"
    if ag: "\<forall>q. p \<le> q \<and> q < p' \<longrightarrow> r q = urandom E q"
  proof -
    let ?E = "E\<lparr>urandom := r\<rparr>"
    have a': "shuffle ?E p (alpha s) = (a, p1)"
      using a ag le1 le2 le3 le4 p4 by (subst shuffle_agree) auto
    have c': "(if preserve_letter_distribution s then shuffle ?E p1 (cons s)
               else (cons s, p1)) = (c, p2)"
    proof (cases "preserve_letter_distribution s")
      case True
      with c have "shuffle E p1 (cons s) = (c, p2)" by simp
      moreover have "shuffle ?E p1 (cons s) = shuffle E p1 (cons s)"
        using calculation ag le1 le2 le3 le4 p4 by (subst shuffle_agree) auto
      ultimately show ?thesis using True by simp
    next
      case False
      with c show ?thesis by simp
    qed
    have v': "(if preserve_letter_distribution s then shuffle ?E p2 (vowels s)
               else (vowels s, p2)) = (v, p3)"
    proof (cases "preserve_letter_distribution s")
      case True
      with v have "shuffle E p2 (vowels s) = (v, p3)" by simp
      moreover have "shuffle ?E p2 (vowels s) = shuffle E p2 (vowels s)"
        using calculation ag le1 le2 le3 le4 p4 by (subst shuffle_agree) auto
      ultimately show ?thesis using True by simp
    next
      case False
      with v show ?thesis by simp
    qed
    have d': "shuffle ?E p3 (digits s) = (d, p4)"
      using d ag le1 le2 le3 le4 p4 by (subst shuffle_agree) auto
    from assms a c v d have "(case flush E (s\<lparr>alpha := a, cons := c, vowels := v, digits := d\<rparr>) of
           Inl e \<Rightarrow> Inl e
         | Inr (t, s') \<Rightarrow> Inr (t, s', p4)) = Inr (out, s', p')"
      by (simp add: scramble_def)
    with a' c' v' d' show ?thesis
      by (simp add: scramble_def flush_urandom)
  qed
  with le1 le2 le3 le4 p4 show ?thesis by simp
qed


lemma srcset_item_urandom: "srcset_item (E\<lparr>urandom := r\<rparr>) h item = srcset_item E h item"
  by (simp add: srcset_item_def)

lemma srcset_items_urandom: "srcset_items (E\<lparr>urandom := r\<rparr>) h items = srcset_items E h items"
  by (induction items) (simp_all add: srcset_item_urandom cong: sum.case_cong)

lemma strip_urandom: "strip (E\<lparr>urandom := r\<rparr>) = strip E"
  by (rule ext) (simp add: strip_def)

lemma process_attr_value_scrambled:
  "attr \<in> set [u ''alt'', u ''placeholder'', u ''title'', u ''value''] \<Longrightarrow>
   process_attr_value E h p tag attr v =
     (case scramble E p (feed E (Scrambler True) v) of
        Inl e \<Rightarrow> Inl e
      | Inr (x, s', p') \<Rightarrow> Inr (escape x, p'))"
  by (auto simp: process_attr_value_def u_def)

lemma process_attr_value_plain:
  assumes "attr \<notin> set [u ''alt'', u ''placeholder'', u ''title'', u ''value'']"
  shows "process_attr_value (E\<lparr>urandom := r\<rparr>) h p tag attr v = process_attr_value E h p tag attr v"
    and "process_attr_value E h p tag attr v = Inr (v', p') \<Longrightarrow> p' = p"
proof -
  show "process_attr_value (E\<lparr>urandom := r\<rparr>) h p tag attr v = process_attr_value E h p tag attr v"
    using assms
    by (simp add: process_attr_value_def srcset_items_urandom strip_urandom cong: if_cong)
  show "p' = p" if "process_attr_value E h p tag attr v = Inr (v', p')"
  proof (cases "(tag = u ''a'' \<and> attr = u ''href'')
                \<or> (tag \<in> set [u ''frame'', u ''iframe''] \<and> attr = u ''src'')")
    case True
    then have "process_attr_value E h p tag attr v =
                 (case urljoin E (base_url h) v of
                    Inl e \<Rightarrow> Inl e
                  | Inr joined \<Rightarrow>
                      (case quote joined of
                         Inl e \<Rightarrow> Inl e
                       | Inr target \<Rightarrow>
                           Inr (escape (if is_honeypot h then u ''?honeypot=1&url='' @ target
                                        else u ''?url='' @ target), p)))"
      unfolding process_attr_value_def by (rule if_P)
    with that show ?thesis
      by (auto split: sum.splits)
  next
    case False
    then have "process_attr_value E h p tag attr v =
                 (if attr \<in> set [u ''action'', u ''href'', u ''src''] then
                    (case urljoin E (base_url h) v of
                       Inl e \<Rightarrow> Inl e
                     | Inr joined \<Rightarrow> Inr (escape joined, p))
                  else if attr = u ''srcset'' then
                    (case srcset_items E h (map (strip E) (split v (u '',''))) of
                       Inl e \<Rightarrow> Inl e
                     | Inr srcset \<Rightarrow> Inr (escape (join (u '', '') srcset), p))
                  else if attr \<in> set [u ''alt'', u ''placeholder'', u ''title'', u ''value''] then
                    (case scramble E p (feed E (Scrambler True) v) of
                       Inl e \<Rightarrow> Inl e
                     | Inr (v, s', p') \<Rightarrow> Inr (escape v, p'))
                  else Inr (escape v, p))"
      unfolding process_attr_value_def by (rule if_not_P)
    with that assms show ?thesis
      by (simp split: if_splits sum.splits)
  qed
qed

lemma process_attr_value_agree:
  assumes "process_attr_value E h p tag attr v = Inr (v', p')"
  shows "p \<le> p' \<and> ((\<forall>q. p \<le> q \<and> q < p' \<longrightarrow> r q = urandom E q) \<longrightarrow>
                     process_attr_value (E\<lparr>urandom := r\<rparr>) h p tag attr v = Inr (v', p'))"
proof (cases "attr \<in> set [u ''alt'', u ''placeholder'', u ''title'', u ''value'']")
  case True
  with assms obtain out s' where
    sc: "scramble E p (feed E (Scrambler True) v) = Inr (out, s', p')" and v': "v' = escape out"
    by (auto simp: process_attr_value_scrambled split: sum.splits)
  from scramble_agree [OF sc, of r] v' show ?thesis
    by (simp add: process_attr_value_scrambled [OF True] feed_urandom)
next
  case False
  have "p' = p" by (rule process_attr_value_plain(2) [OF False assms])
  with assms show ?thesis by (simp add: process_attr_value_plain(1) [OF False])
qed

lemma build_attrs_agree:
  "build_attrs E h p tag attrs = Inr (td, p') \<Longrightarrow>
   p \<le> p' \<and> ((\<forall>q. p \<le> q \<and> q < p' \<longrightarrow> r q = urandom E q) \<longrightarrow>
               build_attrs (E\<lparr>urandom := r\<rparr>) h p tag attrs = Inr (td, p'))"
proof (induction attrs arbitrary: p td)
  case Nil
  then show ?case by simp
next
  case (Cons av attrs)
  obtain attr val where av: "av = (attr, val)" by (cases av)
  show ?case
  proof (cases val)
    case None
    with Cons.prems av obtain td0 where
      b: "build_attrs E h p tag attrs = Inr (td0, p')"
      and td: "td = [u '' '', attr] @ (if is_xhtml h then [u ''=\"'', attr, u ''\"''] else []) @ td0"
      by (auto split: sum.splits)
    from Cons.IH [OF b] None av td show ?thesis by auto
  next
    case (Some v)
    with Cons.prems av obtain v' p1 td0 where
      pv: "process_attr_value E h p tag attr v = Inr (v', p1)"
      and b: "build_attrs E h p1 tag attrs = Inr (td0, p')"
      and td: "td = [u '' '', attr, u ''=\"'', v', u ''\"''] @ td0"
      by (auto split: sum.splits)
    from process_attr_value_agree [OF pv, of r] Cons.IH [OF b] Some av td show ?thesis
      by auto
  qed
qed

lemma build_starttag_agree:
  assumes "build_starttag E h p tag attrs e = Inr (m, p')"
  shows "p \<le> p' \<and> ((\<forall>q. p \<le> q \<and> q < p' \<longrightarrow> r q = urandom E q) \<longrightarrow>
                     build_starttag (E\<lparr>urandom := r\<rparr>) h p tag attrs e = Inr (m, p'))"
proof -
  from assms obtain td where b: "build_attrs E h p tag attrs = Inr (td, p')"
    by (auto simp: build_starttag_def split: sum.splits)
  from build_attrs_agree [OF b, of r] assms b show ?thesis
    by (auto simp: build_starttag_def)
qed

lemma handle_agree:
  assumes "handle E h p ev = Inr (h', p')"
  shows "p \<le> p' \<and> ((\<forall>q. p \<le> q \<and> q < p' \<longrightarrow> r q = urandom E q) \<longrightarrow>
                     handle (E\<lparr>urandom := r\<rparr>) h p ev = Inr (h', p'))"
proof (cases ev)
  case (StartTag tag attrs)
  let ?h = "if tag = u ''script'' then h\<lparr>is_script := True\<rparr>
            else if tag \<in> set DONT_SCRAMBLE then h\<lparr>is_scrambling := False\<rparr> else h"
  show ?thesis
  proof (cases "tag = u ''script'' \<and> suppress_scripts ?h")
    case True
    with assms StartTag show ?thesis by (auto simp: handle_starttag_def Let_def)
  next
    case False
    with assms StartTag obtain m where
      b: "build_starttag E ?h p tag attrs False = Inr (m, p')" and h': "h' = emit ?h m"
      by (auto simp: handle_starttag_def Let_def split: sum.splits)
    from build_starttag_agree [OF b, of r] False h' StartTag show ?thesis
      by (auto simp: handle_starttag_def Let_def)
  qed
next
  case (StartEndTag tag attrs)
  show ?thesis
  proof (cases "tag = u ''script'' \<and> suppress_scripts h")
    case True
    with assms StartEndTag show ?thesis by (auto simp: handle_startendtag_def)
  next
    case False
    with assms StartEndTag obtain m where
      b: "build_starttag E h p tag attrs True = Inr (m, p')" and h': "h' = emit h m"
      by (auto simp: handle_startendtag_def split: sum.splits)
    from build_starttag_agree [OF b, of r] False h' StartEndTag show ?thesis
      by (auto simp: handle_startendtag_def)
  qed
qed (use assms in simp_all)

lemma feed_events_agree:
  "feed_events E h p doc = Inr (h', p') \<Longrightarrow>
   p \<le> p' \<and> ((\<forall>q. p \<le> q \<and> q < p' \<longrightarrow> r q = urandom E q) \<longrightarrow>
               feed_events (E\<lparr>urandom := r\<rparr>) h p doc = Inr (h', p'))"
proof (induction doc arbitrary: h p)
  case Nil
  then show ?case by simp
next
  case (Cons ev doc)
  from Cons.prems obtain h1 p1 where
    h1: "handle E h p ev = Inr (h1, p1)" and f: "feed_events E h1 p1 doc = Inr (h', p')"
    by (auto split: sum.splits)
  from handle_agree [OF h1, of r] Cons.IH [OF f] h1 show ?case by auto
qed

lemma HTMLScrambler_scramble_agree:
  assumes "HTMLScrambler_scramble E h p = Inr (page, h', p')"
  shows "p \<le> p' \<and> ((\<forall>q. p \<le> q \<and> q < p' \<longrightarrow> r q = urandom E q) \<longrightarrow>
                     HTMLScrambler_scramble (E\<lparr>urandom := r\<rparr>) h p = Inr (page, h', p'))"
proof -
  from assms obtain out sc where
    s: "scramble E p (feed E (Scrambler True) (concat (hbuf h))) = Inr (out, sc, p')"
    by (auto simp: HTMLScrambler_scramble_def split: sum.splits)
  from scramble_agree [OF s, of r] assms s show ?thesis
    by (auto simp: HTMLScrambler_scramble_def feed_urandom)
qed

text \<open>
  C9, as claimed: two runs on the same six inputs return the same page. They need not:
  the shuffles draw from \<open>random.SystemRandom\<close>, and for the one text run \<open>bc\<close> a run
  whose draws are all 0 returns \<open>cb\<close>, a run whose draws are all 1 returns \<open>bc\<close>.
\<close>

theorem two_runs_differ:
  "pipeline (python (\<lambda>i. 0)) (u ''https://example.com/'') False None None True [Data (u ''bc'')]
   = Inr (u ''cb'')
   \<and> pipeline (python (\<lambda>i. 1)) (u ''https://example.com/'') False None None True [Data (u ''bc'')]
     = Inr (u ''bc'')
   \<and> u ''cb'' \<noteq> u ''bc''"
  by (simp add: html_defs scrambler_defs py_defs split_from.simps)

text \<open>
  C9, amended. The page is a function of the six inputs and of the random numbers the
  shuffles draw: when a run returns a page after \<open>n\<close> draws, every run on the same
  inputs whose first \<open>n\<close> draws are the same returns the same page.
\<close>

theorem page_determined_by_draws:
  assumes "feed_events E (HTMLScrambler base honeypot src tgt suppress) 0 doc = Inr (h, p)"
    and "HTMLScrambler_scramble E h p = Inr (page, h', n)"
    and "\<forall>q<n. r q = urandom E q"
  shows "pipeline (E\<lparr>urandom := r\<rparr>) base honeypot src tgt suppress doc = Inr page"
proof -
  from HTMLScrambler_scramble_agree [OF assms(2), of r] assms(3)
  have pn: "p \<le> n"
    and s: "HTMLScrambler_scramble (E\<lparr>urandom := r\<rparr>) h p = Inr (page, h', n)" by simp_all
  from feed_events_agree [OF assms(1), of r] assms(3) pn
  have "feed_events (E\<lparr>urandom := r\<rparr>) (HTMLScrambler base honeypot src tgt suppress) 0 doc
        = Inr (h, p)" by simp
  with s show ?thesis by (simp add: pipeline_def)
qed

theorem page_determined_by_draws_witness:
  "HTMLScrambler_scramble (python (\<lambda>i. 0))
     ((HTMLScrambler (u ''https://example.com/'') False None None True)\<lparr>hbuf := [u ''bcd'']\<rparr>) 0
   = Inr (u ''cdb'',
          (HTMLScrambler (u ''https://example.com/'') False None None True)\<lparr>hbuf := [u ''bcd'']\<rparr>,
          2)
   \<and> pipeline ((python (\<lambda>i. 0))\<lparr>urandom := (\<lambda>q. if q < 2 then 0 else 7)\<rparr>)
        (u ''https://example.com/'') False None None True [Data (u ''bcd'')]
     = Inr (u ''cdb'')"
proof -
  let ?E = "python (\<lambda>i. 0)"
  let ?h = "(HTMLScrambler (u ''https://example.com/'') False None None True)\<lparr>hbuf := [u ''bcd'']\<rparr>"
  have a: "feed_events ?E (HTMLScrambler (u ''https://example.com/'') False None None True) 0
             [Data (u ''bcd'')] = Inr (?h, 0)"
    by (simp add: html_defs)
  have b: "HTMLScrambler_scramble ?E ?h 0 = Inr (u ''cdb'', ?h, 2)"
    by (simp add: html_defs scrambler_defs py_defs split_from.simps)
  have c: "\<forall>q<2. (if q < 2 then 0 else 7) = urandom ?E q"
    by (simp add: python_def)
  from page_determined_by_draws [OF a b c] b show ?thesis by simp
qed

section \<open>Script and style elements\<close>

text \<open>
  C5. The claim: a start tag \<open>script\<close> that is not suppressed sets \<open>is_scrambling\<close> to
  false, as \<open>style\<close> does. The code does not: in \<open>handle_starttag\<close> the test for
  \<open>_DONT_SCRAMBLE\<close> is the \<open>elif\<close> of the test for \<open>script\<close>, so a \<open>script\<close> tag never
  reaches it, although \<open>_DONT_SCRAMBLE\<close> lists \<open>script\<close>. With suppression off the state
  after \<open><script>\<close> is still scrambling, the script's text goes to the scrambler's
  buffer, and the page carries it scrambled.
\<close>

theorem script_text_is_scrambled:
  "feed_events E (HTMLScrambler base False src tgt False) p [StartTag (u ''script'') [], Data d]
   = Inr (\<lparr>base_url = base, is_honeypot = False, source_encoding = src, target_encoding = tgt,
           suppress_scripts = False, hbuf = [u ''<>'', d], html = [u ''<script>''],
           is_scrambling = True, is_script = True, is_xhtml = False\<rparr>, p)
   \<and> pipeline (python (\<lambda>i. 0)) (u ''https://example.com/'') False None None False
        [StartTag (u ''script'') [], Data (u ''bc''), EndTag (u ''script'')]
      = Inr (u ''<script>cb</script>'')"
  by (simp add: html_defs scrambler_defs py_defs split_from.simps)

text \<open>The \<open>style\<close> half of the claim holds.\<close>

lemma style_stops_scrambling:
  "handle_starttag E h p (u ''style'') attrs = Inr (h', p') \<Longrightarrow> \<not> is_scrambling h'"
  by (auto simp: handle_starttag_def emit_def DONT_SCRAMBLE_def u_def Let_def split: sum.splits)

lemma style_end_restores_scrambling:
  "is_scrambling (handle_endtag h (u ''style''))"
  by (simp add: handle_endtag_def emit_def DONT_SCRAMBLE_def u_def)

section \<open>Honeypot mode and script suppression\<close>

lemma handle_suppress_scripts:
  "handle E h p ev = Inr (h', p') \<Longrightarrow> suppress_scripts h' = suppress_scripts h"
  by (cases ev)
     (auto simp: handle_starttag_def handle_startendtag_def handle_endtag_def handle_data_def
        handle_entityref_def handle_charref_def handle_comment_def handle_decl_def emit_def
        Let_def split: sum.splits if_splits)

lemma feed_events_suppress_scripts:
  "feed_events E h p doc = Inr (h', p') \<Longrightarrow> suppress_scripts h' = suppress_scripts h"
proof (induction doc arbitrary: h p)
  case Nil
  then show ?case by simp
next
  case (Cons ev doc)
  then show ?case
    by (auto split: sum.splits dest: handle_suppress_scripts)
qed

lemma reassemble_suppress_scripts:
  "reassemble h chunks = Inr (ts, h') \<Longrightarrow> suppress_scripts h' = suppress_scripts h"
proof (induction chunks arbitrary: h ts)
  case Nil
  then show ?case by simp
next
  case (Cons chunk chunks)
  then show ?case
    by (fastforce split: sum.splits list.splits)
qed

text \<open>
  C10. An HTML scrambler constructed with \<open>is_honeypot = True\<close> suppresses scripts,
  whatever \<open>suppress_scripts\<close> was passed: at construction, after any document fed to
  it, and after \<open>scramble\<close>.
\<close>

theorem honeypot_suppresses_scripts:
  "suppress_scripts (HTMLScrambler base True src tgt suppress)
   \<and> (feed_events E (HTMLScrambler base True src tgt suppress) p doc = Inr (h, p') \<longrightarrow>
        suppress_scripts h
        \<and> (HTMLScrambler_scramble E h p' = Inr (page, h', p'') \<longrightarrow> suppress_scripts h'))"
proof -
  have init: "suppress_scripts (HTMLScrambler base True src tgt suppress)"
    by (simp add: HTMLScrambler_def)
  have fed: "suppress_scripts h"
    if "feed_events E (HTMLScrambler base True src tgt suppress) p doc = Inr (h, p')"
    using feed_events_suppress_scripts [OF that] init by simp
  have scr: "suppress_scripts h'"
    if "suppress_scripts h" and "HTMLScrambler_scramble E h p' = Inr (page, h', p'')"
    using that
    by (auto simp: HTMLScrambler_scramble_def split: sum.splits
          dest: reassemble_suppress_scripts)
  from init fed scr show ?thesis by blast
qed

theorem honeypot_suppresses_scripts_witness:
  "feed_events (python (\<lambda>i. 0)) (HTMLScrambler (u ''https://example.com/'') True None None False) 0
     [StartTag (u ''script'') [], Data (u ''evil()''), EndTag (u ''script'')]
   = Inr (\<lparr>base_url = u ''https://example.com/'', is_honeypot = True, source_encoding = None,
           target_encoding = None, suppress_scripts = True, hbuf = [u ''<>''],
           html = [u ''<!-- script removed -->''], is_scrambling = True, is_script = False,
           is_xhtml = False\<rparr>, 0)
   \<and> HTMLScrambler_scramble (python (\<lambda>i. 0))
        \<lparr>base_url = u ''https://example.com/'', is_honeypot = True, source_encoding = None,
         target_encoding = None, suppress_scripts = True, hbuf = [u ''<>''],
         html = [u ''<!-- script removed -->''], is_scrambling = True, is_script = False,
         is_xhtml = False\<rparr> 0
      = Inr (u ''<!-- script removed -->'',
             \<lparr>base_url = u ''https://example.com/'', is_honeypot = True, source_encoding = None,
              target_encoding = None, suppress_scripts = True, hbuf = [u ''<>''],
              html = [], is_scrambling = True, is_script = False, is_xhtml = False\<rparr>, 0)
   \<and> suppress_scripts
        \<lparr>base_url = u ''https://example.com/'', is_honeypot = True, source_encoding = None,
         target_encoding = None, suppress_scripts = True, hbuf = [u ''<>''],
         html = [], is_scrambling = True, is_script = False, is_xhtml = False\<rparr>"
proof -
  let ?E = "python (\<lambda>i. 0)"
  let ?h = "\<lparr>base_url = u ''https://example.com/'', is_honeypot = True, source_encoding = None,
           target_encoding = None, suppress_scripts = True, hbuf = [u ''<>''],
           html = [u ''<!-- script removed -->''], is_scrambling = True, is_script = False,
           is_xhtml = False\<rparr>"
  let ?h' = "?h\<lparr>html := []\<rparr>"
  have a: "feed_events ?E (HTMLScrambler (u ''https://example.com/'') True None None False) 0
             [StartTag (u ''script'') [], Data (u ''evil()''), EndTag (u ''script'')] = Inr (?h, 0)"
    by (simp add: html_defs u_def)
  have b: "HTMLScrambler_scramble ?E ?h 0 = Inr (u ''<!-- script removed -->'', ?h', 0)"
    by (simp add: html_defs scrambler_defs py_defs split_from.simps)
  from honeypot_suppresses_scripts
         [of "u ''https://example.com/''" None None False ?E 0
             "[StartTag (u ''script'') [], Data (u ''evil()''), EndTag (u ''script'')]" ?h 0
             "u ''<!-- script removed -->''" ?h' 0]
    a b
  have "suppress_scripts ?h'" by blast
  with a b show ?thesis by simp
qed

end
